theory Spec2Isabelle
  imports Main "HOL-Library.Word"
begin

unbundle bit_operations_syntax

section \<open>The OTBM binary writer (class OTBMWriter)\<close>

text \<open>
  JavaScript numbers that hold integers are modelled as \<open>int\<close>. The bitwise operators
  of the source (\<open>&\<close>, \<open>>>\<close>) first reduce their operand modulo \<open>2^32\<close>; every use in
  the writer extracts bits below position 32, for which the operators on unbounded
  two's-complement integers (\<open>AND\<close>, \<open>drop_bit\<close>) give the same result.
  The buffer is a JavaScript array of numbers, modelled as \<open>int list\<close>.
\<close>

subsection \<open>Constants\<close>

definition NODE_START :: int where "NODE_START = 0xFE"
definition NODE_END :: int where "NODE_END = 0xFF"
definition ESCAPE :: int where "ESCAPE = 0xFD"

definition OTBM_ROOTV1 :: int where "OTBM_ROOTV1 = 1"
definition OTBM_MAP_DATA :: int where "OTBM_MAP_DATA = 2"
definition OTBM_TILE_AREA :: int where "OTBM_TILE_AREA = 4"
definition OTBM_TILE :: int where "OTBM_TILE = 5"
definition OTBM_ITEM :: int where "OTBM_ITEM = 6"
definition OTBM_TOWNS :: int where "OTBM_TOWNS = 12"
definition OTBM_WAYPOINTS :: int where "OTBM_WAYPOINTS = 15"

definition OTBM_ATTR_DESCRIPTION :: int where "OTBM_ATTR_DESCRIPTION = 1"
definition OTBM_ATTR_ITEM :: int where "OTBM_ATTR_ITEM = 9"

subsection \<open>Writer state\<close>

text \<open>The object pushed by \<open>addTile\<close>: \<open>{ x, y, z, groundId, items }\<close>.\<close>

record tile =
  tile_x :: int
  tile_y :: int
  tile_z :: int
  groundId :: int
  items :: "int list"

text \<open>
  The fields of \<open>OTBMWriter\<close>. The description is held as the sequence of bytes of its
  UTF-8 encoding (an Isabelle \<open>string\<close> is a list of 8-bit characters).
\<close>

record otbm_writer =
  width :: int
  height :: int
  description :: string
  tiles :: "tile list"
  buffer :: "int list"
  otbmVersion :: int
  otbMajorVersion :: int
  otbMinorVersion :: int

definition new_OTBMWriter :: "int \<Rightarrow> int \<Rightarrow> string \<Rightarrow> int \<Rightarrow> int \<Rightarrow> int \<Rightarrow> otbm_writer" where
  "new_OTBMWriter w h desc ver major minor =
     \<lparr> width = w, height = h, description = desc, tiles = [], buffer = [],
       otbmVersion = ver, otbMajorVersion = major, otbMinorVersion = minor \<rparr>"

definition addTile :: "int \<Rightarrow> int \<Rightarrow> int \<Rightarrow> int \<Rightarrow> int list \<Rightarrow> otbm_writer \<Rightarrow> otbm_writer" where
  "addTile tx ty tz gid its w =
     w\<lparr> tiles := tiles w @ [\<lparr> tile_x = tx, tile_y = ty, tile_z = tz, groundId = gid, items = its \<rparr>] \<rparr>"

subsection \<open>Primitive writes\<close>

definition push :: "int list \<Rightarrow> otbm_writer \<Rightarrow> otbm_writer" where
  "push bs w = w\<lparr> buffer := buffer w @ bs \<rparr>"

definition writeByte :: "int \<Rightarrow> otbm_writer \<Rightarrow> otbm_writer" where
  "writeByte v w = push [v AND 0xFF] w"

definition writeEscapedByte :: "int \<Rightarrow> otbm_writer \<Rightarrow> otbm_writer" where
  "writeEscapedByte v0 w =
     (let v = v0 AND 0xFF;
          w1 = (if v = NODE_START \<or> v = NODE_END \<or> v = ESCAPE then push [ESCAPE] w else w)
      in push [v] w1)"

definition writeEscapedBytes :: "int list \<Rightarrow> otbm_writer \<Rightarrow> otbm_writer" where
  "writeEscapedBytes bytes w = fold writeEscapedByte bytes w"

definition writeU16 :: "int \<Rightarrow> otbm_writer \<Rightarrow> otbm_writer" where
  "writeU16 v w =
     writeEscapedByte (drop_bit 8 v AND 0xFF) (writeEscapedByte (v AND 0xFF) w)"

definition writeU32 :: "int \<Rightarrow> otbm_writer \<Rightarrow> otbm_writer" where
  "writeU32 v w =
     writeEscapedByte (drop_bit 24 v AND 0xFF)
       (writeEscapedByte (drop_bit 16 v AND 0xFF)
         (writeEscapedByte (drop_bit 8 v AND 0xFF)
           (writeEscapedByte (v AND 0xFF) w)))"

text \<open>\<open>new TextEncoder().encode(str)\<close>: the UTF-8 bytes of the string.\<close>

definition TextEncoder_encode :: "string \<Rightarrow> int list" where
  "TextEncoder_encode str = map of_char str"

definition writeString :: "string \<Rightarrow> otbm_writer \<Rightarrow> otbm_writer" where
  "writeString str w =
     (let encoded = TextEncoder_encode str
      in writeEscapedBytes encoded (writeU16 (int (length encoded)) w))"

definition startNode :: "int \<Rightarrow> otbm_writer \<Rightarrow> otbm_writer" where
  "startNode nodeType w = writeByte nodeType (push [NODE_START] w)"

definition endNode :: "otbm_writer \<Rightarrow> otbm_writer" where
  "endNode w = push [NODE_END] w"

subsection \<open>Nodes\<close>

definition writeRootHeader :: "otbm_writer \<Rightarrow> otbm_writer" where
  "writeRootHeader w =
     writeU32 (otbMinorVersion w)
       (writeU32 (otbMajorVersion w)
         (writeU16 (height w)
           (writeU16 (width w)
             (writeU32 (otbmVersion w) w))))"

text \<open>The loop over \<open>tile.items\<close> in \<open>_writeTile\<close>: one ITEM node per extra item.\<close>

definition writeItem :: "int \<Rightarrow> otbm_writer \<Rightarrow> otbm_writer" where
  "writeItem itemId w = endNode (writeU16 itemId (startNode OTBM_ITEM w))"

definition writeTile :: "tile \<Rightarrow> int \<Rightarrow> int \<Rightarrow> otbm_writer \<Rightarrow> otbm_writer" where
  "writeTile t baseX baseY w =
     (let w1 = startNode OTBM_TILE w;
          xOffset = tile_x t - baseX;
          yOffset = tile_y t - baseY;
          w2 = writeEscapedByte xOffset w1;
          w3 = writeEscapedByte yOffset w2;
          w4 = writeByte OTBM_ATTR_ITEM w3;
          w5 = writeU16 (groundId t) w4;
          w6 = fold writeItem (items t) w5
      in endNode w6)"

definition writeTileArea :: "int \<Rightarrow> int \<Rightarrow> int \<Rightarrow> tile list \<Rightarrow> otbm_writer \<Rightarrow> otbm_writer" where
  "writeTileArea baseX baseY z ts w =
     (let w1 = startNode OTBM_TILE_AREA w;
          w2 = writeU16 baseX w1;
          w3 = writeU16 baseY w2;
          w4 = writeEscapedByte z w3;
          w5 = fold (\<lambda>t. writeTile t baseX baseY) ts w4
      in endNode w5)"

subsection \<open>Grouping tiles into areas\<close>

text \<open>
  The template literal \<open>`${areaX},${areaY},${tile.z}`\<close> prints each integer in
  decimal, with a leading minus sign for a negative one.
\<close>

fun toStringNat :: "nat \<Rightarrow> string" where
  "toStringNat n =
     (if n < 10 then [char_of (48 + n)]
      else toStringNat (n div 10) @ [char_of (48 + n mod 10)])"

declare toStringNat.simps [simp del]

definition toString :: "int \<Rightarrow> string" where
  "toString i = (if i < 0 then CHR ''-'' # toStringNat (nat (- i)) else toStringNat (nat i))"

record area =
  areaX :: int
  areaY :: int
  area_z :: int
  area_tiles :: "tile list"

text \<open>
  A JavaScript \<open>Map\<close> iterates in insertion order; it is an association list with
  distinct keys. \<open>set\<close> on a key already present keeps the key's position.
\<close>

type_synonym ('k, 'v) js_map = "('k \<times> 'v) list"

definition map_has :: "('k, 'v) js_map \<Rightarrow> 'k \<Rightarrow> bool" where
  "map_has m k = (k \<in> fst ` set m)"

definition map_get :: "('k, 'v) js_map \<Rightarrow> 'k \<Rightarrow> 'v option" where
  "map_get m k = map_of m k"

fun map_set :: "('k, 'v) js_map \<Rightarrow> 'k \<Rightarrow> 'v \<Rightarrow> ('k, 'v) js_map" where
  "map_set [] k v = [(k, v)]"
| "map_set ((k', v') # m) k v = (if k' = k then (k, v) # m else (k', v') # map_set m k v)"

definition map_values :: "('k, 'v) js_map \<Rightarrow> 'v list" where
  "map_values m = map snd m"

definition areaKey :: "int \<Rightarrow> int \<Rightarrow> int \<Rightarrow> string" where
  "areaKey ax ay z = toString ax @ '','' @ toString ay @ '','' @ toString z"

text \<open>
  One iteration of the loop \<open>for (const tile of this.tiles)\<close> of \<open>_writeMapData\<close>.
  \<open>areas.get(areaKey).tiles.push(tile)\<close> appends to the tile array of the area object
  stored under the key.
\<close>

definition groupStep :: "tile \<Rightarrow> (string, area) js_map \<Rightarrow> (string, area) js_map" where
  "groupStep t areas =
     (let ax = tile_x t AND 0xFF00;
          ay = tile_y t AND 0xFF00;
          k = areaKey ax ay (tile_z t);
          areas1 = (if \<not> map_has areas k
                    then map_set areas k \<lparr> areaX = ax, areaY = ay, area_z = tile_z t, area_tiles = [] \<rparr>
                    else areas)
      in case map_get areas1 k of
           None \<Rightarrow> areas1
         | Some a \<Rightarrow> map_set areas1 k (a\<lparr> area_tiles := area_tiles a @ [t] \<rparr>))"

definition groupAreas :: "tile list \<Rightarrow> (string, area) js_map" where
  "groupAreas ts = fold groupStep ts []"

definition writeMapData :: "otbm_writer \<Rightarrow> otbm_writer" where
  "writeMapData w =
     (let w1 = startNode OTBM_MAP_DATA w;
          w2 = writeByte OTBM_ATTR_DESCRIPTION w1;
          w3 = writeString (description w) w2;
          areas = groupAreas (tiles w);
          w4 = fold (\<lambda>a. writeTileArea (areaX a) (areaY a) (area_z a) (area_tiles a))
                 (map_values areas) w3;
          w5 = endNode (startNode OTBM_TOWNS w4);
          w6 = (if otbmVersion w \<ge> 2 then endNode (startNode OTBM_WAYPOINTS w5) else w5)
      in endNode w6)"

text \<open>\<open>new Uint8Array(array)\<close> stores each integer modulo 256.\<close>

definition Uint8Array :: "int list \<Rightarrow> int list" where
  "Uint8Array xs = map (\<lambda>v. v mod 256) xs"

text \<open>The writer after \<open>generate\<close> has run, and the array that \<open>generate\<close> returns.\<close>

definition generate_writer :: "otbm_writer \<Rightarrow> otbm_writer" where
  "generate_writer w =
     (let w1 = w\<lparr> buffer := [] \<rparr>;
          w2 = push [0x4F, 0x54, 0x42, 0x4D] w1;
          w3 = startNode OTBM_ROOTV1 w2;
          w4 = writeRootHeader w3;
          w5 = writeMapData w4
      in endNode w5)"

definition generate :: "otbm_writer \<Rightarrow> int list" where
  "generate w = Uint8Array (buffer (generate_writer w))"

section \<open>The application (class PNGToOTBMApp)\<close>

subsection \<open>State\<close>

text \<open>
  A decoded image: its dimensions and its pixels as \<open>getImageData\<close> returns them, a
  \<open>Uint8ClampedArray\<close> with four bytes (red, green, blue, alpha) per pixel in row-major
  order. \<open>getImageData\<close> always returns \<open>4 * width * height\<close> bytes.
\<close>

record image_data =
  img_width :: nat
  img_height :: nat
  img_data :: "8 word list"

definition image_ok :: "image_data \<Rightarrow> bool" where
  "image_ok img = (length (img_data img) = 4 * img_width img * img_height img)"

text \<open>An entry of \<open>colorMappings\<close>: \<open>{ hex, rgb, tileId, count }\<close>.\<close>

record mapping =
  m_hex :: string
  m_rgb :: "nat \<times> nat \<times> nat"
  tileId :: int
  m_count :: nat

text \<open>
  The state of the application that analysis and generation read and write. The
  values of the input elements are held as what \<open>parseInt\<close> makes of them: an integer,
  or \<open>None\<close> for \<open>NaN\<close>.
\<close>

record app_state =
  app_image :: "image_data option"
  imageData :: "image_data option"
  colorMappings :: "(string, mapping) js_map"
  transparentPixelCount :: nat
  transparentTileId_value :: "int option"
  zLevel_value :: "int option"
  offsetX_value :: "int option"
  offsetY_value :: "int option"
  clientVersion_value :: string

text \<open>An entry of \<open>CLIENT_DATA.clients\<close> and one of \<open>CLIENT_DATA.otbVersions\<close>.\<close>

record client_config =
  client_name :: string
  client_otb :: string
  client_otbmVersion :: int

record otb_version =
  otb_version_version :: int
  otb_version_id :: int

subsection \<open>Colour keys\<close>

definition hexDigit :: "nat \<Rightarrow> char" where
  "hexDigit n = (if n < 10 then char_of (48 + n) else char_of (87 + n))"

text \<open>\<open>x.toString(16)\<close> for a non-negative integer.\<close>

fun toString16 :: "nat \<Rightarrow> string" where
  "toString16 n =
     (if n < 16 then [hexDigit n] else toString16 (n div 16) @ [hexDigit (n mod 16)])"

declare toString16.simps [simp del]

definition padStart :: "nat \<Rightarrow> char \<Rightarrow> string \<Rightarrow> string" where
  "padStart n c s = replicate (n - length s) c @ s"

definition rgbToHex :: "8 word \<Rightarrow> 8 word \<Rightarrow> 8 word \<Rightarrow> string" where
  "rgbToHex r g b =
     CHR ''#'' # concat (map (\<lambda>v. padStart 2 (CHR ''0'') (toString16 (unat v))) [r, g, b])"

definition hexDigitVal :: "char \<Rightarrow> nat option" where
  "hexDigitVal c =
     (let n = (of_char c :: nat)
      in if 48 \<le> n \<and> n \<le> 57 then Some (n - 48)
         else if 97 \<le> n \<and> n \<le> 102 then Some (n - 87)
         else if 65 \<le> n \<and> n \<le> 70 then Some (n - 55)
         else None)"

definition parseHex2 :: "char \<Rightarrow> char \<Rightarrow> nat option" where
  "parseHex2 c d =
     (case (hexDigitVal c, hexDigitVal d) of
        (Some hi, Some lo) \<Rightarrow> Some (16 * hi + lo)
      | _ \<Rightarrow> None)"

text \<open>
  \<open>_hexToRgb\<close>: the regular expression \<open>/^#?([a-f\d]{2})([a-f\d]{2})([a-f\d]{2})$/i\<close>,
  and black when it does not match.
\<close>

definition hexToRgb :: "string \<Rightarrow> nat \<times> nat \<times> nat" where
  "hexToRgb s =
     (let body = (case s of c # rest \<Rightarrow> if c = CHR ''#'' then rest else s | [] \<Rightarrow> s)
      in case body of
           [c1, c2, c3, c4, c5, c6] \<Rightarrow>
             (case (parseHex2 c1 c2, parseHex2 c3 c4, parseHex2 c5 c6) of
                (Some r, Some g, Some b) \<Rightarrow> (r, g, b)
              | _ \<Rightarrow> (0, 0, 0))
         | _ \<Rightarrow> (0, 0, 0))"

subsection \<open>Reading pixels\<close>

text \<open>
  Indexing a typed array out of range gives \<open>undefined\<close> (\<open>None\<close>). The comparison
  \<open>undefined < 128\<close> is false, and \<open>undefined.toString(16)\<close> throws a \<open>TypeError\<close>.
\<close>

definition at :: "'a list \<Rightarrow> nat \<Rightarrow> 'a option" where
  "at xs i = (if i < length xs then Some (xs ! i) else None)"

definition lt128 :: "8 word option \<Rightarrow> bool" where
  "lt128 a = (case a of None \<Rightarrow> False | Some v \<Rightarrow> v < 128)"

definition rgbToHex_opt :: "8 word option \<Rightarrow> 8 word option \<Rightarrow> 8 word option \<Rightarrow> string option" where
  "rgbToHex_opt r g b =
     (case (r, g, b) of
        (Some rv, Some gv, Some bv) \<Rightarrow> Some (rgbToHex rv gv bv)
      | _ \<Rightarrow> None)"

subsection \<open>Image limits\<close>

definition MAX_DIMENSION :: nat where "MAX_DIMENSION = 4500"
definition MAX_TOTAL_PIXELS :: nat where "MAX_TOTAL_PIXELS = 13500000"
definition MAX_COLORS :: nat where "MAX_COLORS = 256"

text \<open>\<open>_checkImageComplexity\<close>: the field \<open>valid\<close> of its result.\<close>

definition checkImageComplexity :: "nat \<Rightarrow> nat \<Rightarrow> bool" where
  "checkImageComplexity w h =
     (let totalPixels = w * h
      in if w > MAX_DIMENSION \<or> h > MAX_DIMENSION then False
         else if totalPixels > MAX_TOTAL_PIXELS then False
         else True)"

subsection \<open>Colour analysis\<close>

datatype scan_result =
    ScanTooManyColors
  | ScanTypeError
  | ScanDone "(string, nat) js_map" nat

text \<open>
  The loop \<open>for (let i = 0; i < pixels.length; i += 4)\<close> of \<open>_analyzeColors\<close>, from index
  \<open>i\<close> with the counts and the transparent count so far.
\<close>

function countColors :: "8 word list \<Rightarrow> nat \<Rightarrow> (string, nat) js_map \<Rightarrow> nat \<Rightarrow> scan_result" where
  "countColors pixels i colorCounts transparentCount =
     (if i < length pixels then
        (if lt128 (at pixels (i + 3))
         then countColors pixels (i + 4) colorCounts (transparentCount + 1)
         else (case rgbToHex_opt (at pixels i) (at pixels (i + 1)) (at pixels (i + 2)) of
                 None \<Rightarrow> ScanTypeError
               | Some hex \<Rightarrow>
                   (if length (map_set colorCounts hex
                         ((case map_get colorCounts hex of None \<Rightarrow> 0 | Some c \<Rightarrow> c) + 1)) > MAX_COLORS
                    then ScanTooManyColors
                    else countColors pixels (i + 4)
                           (map_set colorCounts hex
                              ((case map_get colorCounts hex of None \<Rightarrow> 0 | Some c \<Rightarrow> c) + 1))
                           transparentCount)))
      else ScanDone colorCounts transparentCount)"
  by pat_completeness auto
termination
  by (relation "measure (\<lambda>(pixels, i, _, _). length pixels - i)") auto

declare countColors.simps [simp del]

text \<open>
  \<open>Array.prototype.sort\<close> with a comparator is a stable sort: an element goes before
  another when the comparator is negative, after it when positive, and equal elements
  keep their order. It is modelled by insertion from the right.
\<close>

fun insert_cmp :: "('a \<Rightarrow> 'a \<Rightarrow> int) \<Rightarrow> 'a \<Rightarrow> 'a list \<Rightarrow> 'a list" where
  "insert_cmp cmp v [] = [v]"
| "insert_cmp cmp v (u # us) = (if cmp v u \<le> 0 then v # u # us else u # insert_cmp cmp v us)"

definition js_sort :: "('a \<Rightarrow> 'a \<Rightarrow> int) \<Rightarrow> 'a list \<Rightarrow> 'a list" where
  "js_sort cmp xs = foldr (insert_cmp cmp) xs []"

definition byCountDesc :: "string \<times> nat \<Rightarrow> string \<times> nat \<Rightarrow> int" where
  "byCountDesc a b = int (snd b) - int (snd a)"

datatype analyze_result =
    AnalyzeNull
  | AnalyzeSuccess bool
  | AnalyzeThrows

text \<open>
  The loop that stores the sorted colours in \<open>colorMappings\<close>; \<open>saved\<close> is the map that
  \<open>_loadColorMappings\<close> reads from local storage.
\<close>

definition storeMapping :: "(string \<rightharpoonup> int) \<Rightarrow> string \<times> nat \<Rightarrow> (string, mapping) js_map \<Rightarrow> (string, mapping) js_map" where
  "storeMapping saved e cm =
     (case e of (hex, n) \<Rightarrow>
        map_set cm hex
          \<lparr> m_hex = hex, m_rgb = hexToRgb hex,
            tileId = (case saved hex of Some t \<Rightarrow> t | None \<Rightarrow> 0),
            m_count = n \<rparr>)"

definition analyzeColors :: "(string \<rightharpoonup> int) \<Rightarrow> app_state \<Rightarrow> analyze_result \<times> app_state" where
  "analyzeColors saved st =
     (case app_image st of
        None \<Rightarrow> (AnalyzeNull, st)
      | Some img \<Rightarrow>
          (let st1 = st\<lparr> imageData := Some img \<rparr>
           in case countColors (img_data img) 0 [] 0 of
                ScanTypeError \<Rightarrow> (AnalyzeThrows, st1)
              | ScanTooManyColors \<Rightarrow>
                  (AnalyzeSuccess False,
                   st1\<lparr> app_image := None, imageData := None, colorMappings := [] \<rparr>)
              | ScanDone colorCounts transparentCount \<Rightarrow>
                  (let sortedColors = js_sort byCountDesc colorCounts
                   in (AnalyzeSuccess True,
                       st1\<lparr> colorMappings := fold (storeMapping saved) sortedColors [],
                            transparentPixelCount := transparentCount \<rparr>))))"

text \<open>
  \<open>_analyzeColors\<close> of \<open>app.js\<close>: the same scan and sort; every stored entry has
  \<open>tileId: 0\<close>.
\<close>

definition analyzeColors_app_js :: "app_state \<Rightarrow> analyze_result \<times> app_state" where
  "analyzeColors_app_js st =
     (case app_image st of
        None \<Rightarrow> (AnalyzeNull, st)
      | Some img \<Rightarrow>
          (let st1 = st\<lparr> imageData := Some img \<rparr>
           in case countColors (img_data img) 0 [] 0 of
                ScanTypeError \<Rightarrow> (AnalyzeThrows, st1)
              | ScanTooManyColors \<Rightarrow>
                  (AnalyzeSuccess False,
                   st1\<lparr> app_image := None, imageData := None, colorMappings := [] \<rparr>)
              | ScanDone colorCounts transparentCount \<Rightarrow>
                  (let sortedColors = js_sort byCountDesc colorCounts
                   in (AnalyzeSuccess True,
                       st1\<lparr> colorMappings :=
                              fold (\<lambda>e cm. case e of (hex, n) \<Rightarrow>
                                      map_set cm hex
                                        \<lparr> m_hex = hex, m_rgb = hexToRgb hex, tileId = 0, m_count = n \<rparr>)
                                sortedColors [],
                            transparentPixelCount := transparentCount \<rparr>))))"

text \<open>
  The handler \<open>img.onload\<close> of \<open>_loadImage\<close>: the complexity check, then the analysis,
  whose result the handler reads.
\<close>

datatype load_result =
    ImageTooLarge
  | Analyzed analyze_result

definition loadImage :: "(string \<rightharpoonup> int) \<Rightarrow> image_data \<Rightarrow> app_state \<Rightarrow> load_result \<times> app_state" where
  "loadImage saved img st =
     (if \<not> checkImageComplexity (img_width img) (img_height img)
      then (ImageTooLarge, st\<lparr> app_image := None, imageData := None, colorMappings := [] \<rparr>)
      else (case analyzeColors saved (st\<lparr> app_image := Some img \<rparr>) of
              (colorAnalysisResult, st') \<Rightarrow> (Analyzed colorAnalysisResult, st')))"

subsection \<open>Tile planning and generation\<close>

text \<open>\<open>parseInt(input.value) || d\<close>: \<open>d\<close> replaces \<open>NaN\<close> and also \<open>0\<close>.\<close>

definition or_default :: "int option \<Rightarrow> int \<Rightarrow> int" where
  "or_default v d = (case v of None \<Rightarrow> d | Some n \<Rightarrow> if n = 0 then d else n)"

datatype gen_result =
    NoImageLoaded
  | Cancelled
  | CoordinateOverflow
  | InvalidClient
  | OtbNotFound
  | GenerationError
  | Downloaded otbm_writer "int list"

text \<open>A loop whose body may throw: the first exception ends it.\<close>

fun fold_opt :: "('a \<Rightarrow> 's \<Rightarrow> 's option) \<Rightarrow> 'a list \<Rightarrow> 's \<Rightarrow> 's option" where
  "fold_opt f [] s = Some s"
| "fold_opt f (v # vs) s = (case f v s of None \<Rightarrow> None | Some s' \<Rightarrow> fold_opt f vs s')"

text \<open>
  The lookup map \<open>colorToTile\<close>: the colours whose tile id is positive.
\<close>

definition colorToTile_of :: "(string, mapping) js_map \<Rightarrow> (string, int) js_map" where
  "colorToTile_of cm =
     fold (\<lambda>e c. case e of (hex, m) \<Rightarrow> if tileId m > 0 then map_set c hex (tileId m) else c) cm []"

text \<open>
  The body of the two pixel loops of \<open>_generateOTBM\<close> at column \<open>px\<close> and row \<open>py\<close>.
  \<open>if (tileId)\<close> holds for a number other than zero. The counters of the status
  message and the progress bar are left out.
\<close>

definition planPixel ::
  "8 word list \<Rightarrow> nat \<Rightarrow> int \<Rightarrow> int \<Rightarrow> int \<Rightarrow> int \<Rightarrow> (string, int) js_map \<Rightarrow> nat \<Rightarrow> nat
    \<Rightarrow> otbm_writer \<Rightarrow> otbm_writer option" where
  "planPixel pixels w offX offY z transparentId colorToTile py px writer =
     (let i = (py * w + px) * 4
      in if lt128 (at pixels (i + 3))
         then (if transparentId > 0
               then Some (addTile (int px + offX) (int py + offY) z transparentId [] writer)
               else Some writer)
         else (case rgbToHex_opt (at pixels i) (at pixels (i + 1)) (at pixels (i + 2)) of
                 None \<Rightarrow> None
               | Some hex \<Rightarrow>
                   (case map_get colorToTile hex of
                      None \<Rightarrow> Some writer
                    | Some tid \<Rightarrow>
                        if tid \<noteq> 0
                        then Some (addTile (int px + offX) (int py + offY) z tid [] writer)
                        else Some writer)))"

definition planTiles ::
  "8 word list \<Rightarrow> nat \<Rightarrow> nat \<Rightarrow> int \<Rightarrow> int \<Rightarrow> int \<Rightarrow> int \<Rightarrow> (string, int) js_map
    \<Rightarrow> otbm_writer \<Rightarrow> otbm_writer option" where
  "planTiles pixels w h offX offY z transparentId colorToTile writer =
     fold_opt (\<lambda>py. fold_opt (planPixel pixels w offX offY z transparentId colorToTile py) [0..<w])
       [0..<h] writer"

definition map_description :: "string \<Rightarrow> string" where
  "map_description name = ''PNG to OTBM Converted Map ('' @ name @ '')''"

text \<open>
  \<open>_generateOTBM\<close>. The parameters are the two lookups of \<open>clients-data.js\<close> and the
  answer that \<open>confirm\<close> gives when the warning about id 0 is shown.
\<close>

definition generateOTBM ::
  "(string \<Rightarrow> client_config option) \<Rightarrow> (string \<Rightarrow> otb_version option) \<Rightarrow> bool
    \<Rightarrow> app_state \<Rightarrow> gen_result" where
  "generateOTBM getClientConfig getOTBVersion proceed st =
     (case (app_image st, imageData st) of
        (Some img, Some idata) \<Rightarrow>
          (let w = img_width img;
               h = img_height img;
               zeroIds = filter (\<lambda>m. tileId m = 0) (map_values (colorMappings st));
               transparentId = max 0 (min 65535 (or_default (transparentTileId_value st) 0));
               hasTransparentPixels = (transparentPixelCount st > 0)
           in if (length zeroIds > 0 \<or> (hasTransparentPixels \<and> transparentId = 0)) \<and> \<not> proceed
              then Cancelled
              else
                (let z = max 0 (min 15 (or_default (zLevel_value st) 7));
                     offX = max 0 (or_default (offsetX_value st) 0);
                     offY = max 0 (or_default (offsetY_value st) 0)
                 in if offX + int w > 65535 \<or> offY + int h > 65535
                    then CoordinateOverflow
                    else
                      (case getClientConfig (clientVersion_value st) of
                         None \<Rightarrow> InvalidClient
                       | Some clientConfig \<Rightarrow>
                           (case getOTBVersion (client_otb clientConfig) of
                              None \<Rightarrow> OtbNotFound
                            | Some otbVersion \<Rightarrow>
                                (case planTiles (img_data idata) w h offX offY z transparentId
                                        (colorToTile_of (colorMappings st))
                                        (new_OTBMWriter (int w + offX) (int h + offY)
                                           (map_description (client_name clientConfig))
                                           (client_otbmVersion clientConfig)
                                           (otb_version_version otbVersion)
                                           (otb_version_id otbVersion)) of
                                   None \<Rightarrow> GenerationError
                                 | Some writer \<Rightarrow> Downloaded writer (generate writer))))))
      | _ \<Rightarrow> NoImageLoaded)"

text \<open>
  \<open>_generateOTBM\<close> of \<open>app.js\<close>: the transparent id and the offsets are taken as
  parsed, and the offsets are not compared with the map limit.
\<close>

definition generateOTBM_app_js ::
  "(string \<Rightarrow> client_config option) \<Rightarrow> (string \<Rightarrow> otb_version option) \<Rightarrow> bool
    \<Rightarrow> app_state \<Rightarrow> gen_result" where
  "generateOTBM_app_js getClientConfig getOTBVersion proceed st =
     (case (app_image st, imageData st) of
        (Some img, Some idata) \<Rightarrow>
          (let zeroIds = filter (\<lambda>m. tileId m = 0) (map_values (colorMappings st));
               transparentId = or_default (transparentTileId_value st) 0;
               hasTransparentPixels = (transparentPixelCount st > 0)
           in if (length zeroIds > 0 \<or> (hasTransparentPixels \<and> transparentId = 0)) \<and> \<not> proceed
              then Cancelled
              else
                (let z = max 0 (min 15 (or_default (zLevel_value st) 7));
                     offX = or_default (offsetX_value st) 0;
                     offY = or_default (offsetY_value st) 0
                 in case getClientConfig (clientVersion_value st) of
                      None \<Rightarrow> InvalidClient
                    | Some clientConfig \<Rightarrow>
                        (case getOTBVersion (client_otb clientConfig) of
                           None \<Rightarrow> OtbNotFound
                         | Some otbVersion \<Rightarrow>
                             (let w = img_width img;
                                  h = img_height img
                              in case planTiles (img_data idata) w h offX offY z transparentId
                                        (colorToTile_of (colorMappings st))
                                        (new_OTBMWriter (int w + offX) (int h + offY)
                                           (map_description (client_name clientConfig))
                                           (client_otbmVersion clientConfig)
                                           (otb_version_version otbVersion)
                                           (otb_version_id otbVersion)) of
                                   None \<Rightarrow> GenerationError
                                 | Some writer \<Rightarrow> Downloaded writer (generate writer)))))
      | _ \<Rightarrow> NoImageLoaded)"

section \<open>The format as the specification words it\<close>

text \<open>
  The definitions of this section follow the sentences of the specification, not the
  code: they are what the code is compared with.
\<close>

subsection \<open>Escaping\<close>

text \<open>
  A data byte equal to \<open>0xFE\<close>, \<open>0xFF\<close> or \<open>0xFD\<close> is preceded by one literal \<open>0xFD\<close>;
  stripping removes each escape byte and keeps the byte after it.
\<close>

definition is_marker :: "int \<Rightarrow> bool" where
  "is_marker b = (b = 0xFE \<or> b = 0xFF \<or> b = 0xFD)"

fun spec_escape :: "int list \<Rightarrow> int list" where
  "spec_escape [] = []"
| "spec_escape (b # bs) = (if is_marker b then 0xFD # b # spec_escape bs else b # spec_escape bs)"

fun spec_unescape :: "int list \<Rightarrow> int list" where
  "spec_unescape [] = []"
| "spec_unescape (b # bs) =
     (if b = 0xFD then (case bs of [] \<Rightarrow> [] | c # cs \<Rightarrow> c # spec_unescape cs)
      else b # spec_unescape bs)"

subsection \<open>Little-endian integers\<close>

definition u16_le :: "int \<Rightarrow> int list" where
  "u16_le v = [v mod 256, v div 256 mod 256]"

definition u32_le :: "int \<Rightarrow> int list" where
  "u32_le v = [v mod 256, v div 256 mod 256, v div 65536 mod 256, v div 16777216 mod 256]"

fun le_value :: "int list \<Rightarrow> int" where
  "le_value [] = 0"
| "le_value (b # bs) = b + 256 * le_value bs"

subsection \<open>The node tree\<close>

text \<open>
  A node is a start marker, a type byte, a body and an end marker. The layouts of the
  item, tile, tile-area, map-data and root nodes are those of the top-level layout of the
  specification.
\<close>

definition spec_node :: "int \<Rightarrow> int list \<Rightarrow> int list" where
  "spec_node ty body = [0xFE, ty] @ body @ [0xFF]"

definition spec_string :: "string \<Rightarrow> int list" where
  "spec_string s = spec_escape (u16_le (int (length s))) @ spec_escape (map of_char s)"

definition spec_item_node :: "int \<Rightarrow> int list" where
  "spec_item_node itemId = spec_node 6 (spec_escape (u16_le itemId))"

definition spec_tile_node :: "int \<Rightarrow> int \<Rightarrow> tile \<Rightarrow> int list" where
  "spec_tile_node baseX baseY t =
     spec_node 5
       (spec_escape [(tile_x t - baseX) mod 256] @ spec_escape [(tile_y t - baseY) mod 256]
        @ [9] @ spec_escape (u16_le (groundId t))
        @ concat (map spec_item_node (items t)))"

definition spec_area_node :: "area \<Rightarrow> int list" where
  "spec_area_node a =
     spec_node 4
       (spec_escape (u16_le (areaX a)) @ spec_escape (u16_le (areaY a))
        @ spec_escape [area_z a mod 256]
        @ concat (map (spec_tile_node (areaX a) (areaY a)) (area_tiles a)))"

definition spec_map_data :: "string \<Rightarrow> int \<Rightarrow> area list \<Rightarrow> int list" where
  "spec_map_data desc ver areas =
     spec_node 2
       ([1] @ spec_string desc
        @ concat (map spec_area_node areas)
        @ spec_node 12 []
        @ (if ver \<ge> 2 then spec_node 15 [] else []))"

definition spec_root_header :: "otbm_writer \<Rightarrow> int list" where
  "spec_root_header w =
     spec_escape (u32_le (otbmVersion w)) @ spec_escape (u16_le (width w))
     @ spec_escape (u16_le (height w)) @ spec_escape (u32_le (otbMajorVersion w))
     @ spec_escape (u32_le (otbMinorVersion w))"

definition spec_document :: "otbm_writer \<Rightarrow> int list" where
  "spec_document w =
     [0x4F, 0x54, 0x42, 0x4D]
     @ spec_node 1
         (spec_root_header w
          @ spec_map_data (description w) (otbmVersion w) (map_values (groupAreas (tiles w))))"

text \<open>Every element is a byte.\<close>

definition byte_range :: "int list \<Rightarrow> bool" where
  "byte_range bs = list_all (\<lambda>b. 0 \<le> b \<and> b < 256) bs"

subsection \<open>Markers in a stream\<close>

text \<open>
  The number of occurrences of a marker byte that are not the byte after an escape
  byte. A stream is \<open>dangling\<close> when it ends in an escape byte with nothing after it, and
  \<open>balanced\<close> when it is not dangling, has as many start as end markers, and has in no
  prefix more end markers than start markers.
\<close>

fun count_unescaped :: "int \<Rightarrow> int list \<Rightarrow> nat" where
  "count_unescaped m [] = 0"
| "count_unescaped m (b # bs) =
     (if b = 0xFD then (case bs of [] \<Rightarrow> 0 | c # cs \<Rightarrow> count_unescaped m cs)
      else (if b = m then 1 else 0) + count_unescaped m bs)"

fun dangling :: "int list \<Rightarrow> bool" where
  "dangling [] = False"
| "dangling (b # bs) =
     (if b = 0xFD then (case bs of [] \<Rightarrow> True | c # cs \<Rightarrow> dangling cs) else dangling bs)"

definition balanced :: "int list \<Rightarrow> bool" where
  "balanced bs =
     (\<not> dangling bs \<and> count_unescaped 0xFE bs = count_unescaped 0xFF bs
      \<and> (\<forall>n. count_unescaped 0xFF (take n bs) \<le> count_unescaped 0xFE (take n bs)))"


subsection \<open>The colour analyzer\<close>

text \<open>
  The pixels of a buffer, four bytes each. A pixel is opaque when its alpha is at least
  128 and transparent otherwise. The colour of an opaque pixel is its RGB triple, its key
  the hexadecimal string of the triple.
\<close>

type_synonym rgba = "8 word \<times> 8 word \<times> 8 word \<times> 8 word"

fun pixel_list :: "8 word list \<Rightarrow> rgba list" where
  "pixel_list (r # g # b # a # rest) = (r, g, b, a) # pixel_list rest"
| "pixel_list _ = []"

definition is_opaque :: "rgba \<Rightarrow> bool" where
  "is_opaque p = (case p of (r, g, b, a) \<Rightarrow> a \<ge> 128)"

definition opaque_colors :: "8 word list \<Rightarrow> (8 word \<times> 8 word \<times> 8 word) list" where
  "opaque_colors pixels = map (\<lambda>(r, g, b, a). (r, g, b)) (filter is_opaque (pixel_list pixels))"

definition color_key :: "8 word \<times> 8 word \<times> 8 word \<Rightarrow> string" where
  "color_key c = (case c of (r, g, b) \<Rightarrow> rgbToHex r g b)"

definition opaque_keys :: "8 word list \<Rightarrow> string list" where
  "opaque_keys pixels = map color_key (opaque_colors pixels)"

definition transparent_count :: "8 word list \<Rightarrow> nat" where
  "transparent_count pixels = length (filter (\<lambda>p. \<not> is_opaque p) (pixel_list pixels))"

subsection \<open>Areas\<close>

text \<open>
  The key of the area of a tile as the specification words it,
  \<open>(x & ~0xFF, y & ~0xFF, z)\<close>; the key of an area; the order of first appearance of
  the elements of a list; and the range of map coordinates, \<open>0\<close> to \<open>65535\<close>.
\<close>

definition spec_area_key :: "tile \<Rightarrow> int \<times> int \<times> int" where
  "spec_area_key t = (tile_x t AND NOT 0xFF, tile_y t AND NOT 0xFF, tile_z t)"

definition area_key :: "area \<Rightarrow> int \<times> int \<times> int" where
  "area_key a = (areaX a, areaY a, area_z a)"

definition firsts :: "'a list \<Rightarrow> 'a list" where
  "firsts xs = rev (remdups (rev xs))"

definition in_map_range :: "tile \<Rightarrow> bool" where
  "in_map_range t = (0 \<le> tile_x t \<and> tile_x t \<le> 65535 \<and> 0 \<le> tile_y t \<and> tile_y t \<le> 65535)"

subsection \<open>The tile planner\<close>

text \<open>
  The per-pixel rule of the specification: a transparent pixel (alpha below 128) is
  given the transparent tile id when that id is positive; an opaque pixel is given the
  tile id of its palette entry when that id is positive; any other pixel is given
  nothing. The plan is the list of tiles of the pixels that are given an id, row by row,
  each at its pixel position moved by the offsets.
\<close>

definition spec_ground :: "8 word \<Rightarrow> string \<Rightarrow> int \<Rightarrow> (string, mapping) js_map \<Rightarrow> int option" where
  "spec_ground alpha key transparentTileId palette =
     (if alpha < 128
      then (if transparentTileId > 0 then Some transparentTileId else None)
      else (case map_get palette key of
              None \<Rightarrow> None
            | Some m \<Rightarrow> if tileId m > 0 then Some (tileId m) else None))"

definition spec_pixel_tiles ::
  "8 word list \<Rightarrow> nat \<Rightarrow> int \<Rightarrow> int \<Rightarrow> int \<Rightarrow> int \<Rightarrow> (string, mapping) js_map \<Rightarrow> nat \<Rightarrow> nat \<Rightarrow> tile list" where
  "spec_pixel_tiles pixels w offX offY z transparentTileId palette py px =
     (let i = (py * w + px) * 4
      in case spec_ground (pixels ! (i + 3))
                (rgbToHex (pixels ! i) (pixels ! (i + 1)) (pixels ! (i + 2)))
                transparentTileId palette of
           None \<Rightarrow> []
         | Some g \<Rightarrow>
             [\<lparr> tile_x = int px + offX, tile_y = int py + offY, tile_z = z, groundId = g,
                items = [] \<rparr>])"

definition spec_plan ::
  "8 word list \<Rightarrow> nat \<Rightarrow> nat \<Rightarrow> int \<Rightarrow> int \<Rightarrow> int \<Rightarrow> int \<Rightarrow> (string, mapping) js_map \<Rightarrow> tile list" where
  "spec_plan pixels w h offX offY z transparentTileId palette =
     concat (map (\<lambda>py. concat (map (spec_pixel_tiles pixels w offX offY z transparentTileId palette py)
                                    [0..<w]))
               [0..<h])"

section \<open>Auxiliary notions\<close>

text \<open>
  What the proofs name: decimal digits; the key string of a tile and the area the
  grouping loop builds for a key; the same with the triple of integers that the key
  string prints; tiles whose tile nodes are the same in the same area.
\<close>

definition is_digit :: "char \<Rightarrow> bool" where
  "is_digit c = (\<exists>d<10. c = char_of (48 + (d::nat)))"

definition tileKey :: "tile \<Rightarrow> string" where
  "tileKey t = areaKey (tile_x t AND 0xFF00) (tile_y t AND 0xFF00) (tile_z t)"

definition area_of :: "string \<Rightarrow> tile list \<Rightarrow> area" where
  "area_of k ts =
     (let g = filter (\<lambda>t. tileKey t = k) ts
      in \<lparr> areaX = tile_x (hd g) AND 0xFF00, areaY = tile_y (hd g) AND 0xFF00,
           area_z = tile_z (hd g), area_tiles = g \<rparr>)"

definition code_key :: "tile \<Rightarrow> int \<times> int \<times> int" where
  "code_key t = (tile_x t AND 0xFF00, tile_y t AND 0xFF00, tile_z t)"

definition area_for :: "int \<times> int \<times> int \<Rightarrow> tile list \<Rightarrow> area" where
  "area_for c ts =
     \<lparr> areaX = fst c, areaY = fst (snd c), area_z = snd (snd c),
       area_tiles = filter (\<lambda>t. code_key t = c) ts \<rparr>"

definition key_string :: "int \<times> int \<times> int \<Rightarrow> string" where
  "key_string c = areaKey (fst c) (fst (snd c)) (snd (snd c))"

definition same_encoding :: "tile \<Rightarrow> tile \<Rightarrow> bool" where
  "same_encoding t t' =
     (code_key t = code_key t' \<and> (\<forall>bx by. spec_tile_node bx by t = spec_tile_node bx by t'))"

text \<open>Appending tiles to a writer; a writer whose tiles all have a positive ground id.\<close>

definition add_tiles :: "tile list \<Rightarrow> otbm_writer \<Rightarrow> otbm_writer" where
  "add_tiles ts wr = wr\<lparr> tiles := tiles wr @ ts \<rparr>"

definition grounds_positive :: "otbm_writer \<Rightarrow> bool" where
  "grounds_positive wr = list_all (\<lambda>t. groundId t > 0) (tiles wr)"

text \<open>
  For the analysis: one counting step of the scan; the scan over a list of pixels, \<open>None\<close>
  when the colours become too many; the keys of the opaque pixels of a list; the counts of
  a list of keys in the order of first appearance; lists in descending order of count; the
  palette entry stored for a counted key; and the palette stored for a buffer.
\<close>

definition bump :: "string \<Rightarrow> (string, nat) js_map \<Rightarrow> (string, nat) js_map" where
  "bump k cc = map_set cc k ((case map_get cc k of None \<Rightarrow> 0 | Some c \<Rightarrow> c) + 1)"

fun scan :: "rgba list \<Rightarrow> (string, nat) js_map \<Rightarrow> nat \<Rightarrow> ((string, nat) js_map \<times> nat) option" where
  "scan [] cc tc = Some (cc, tc)"
| "scan (p # ps) cc tc =
     (if \<not> is_opaque p then scan ps cc (tc + 1)
      else if length (bump (color_key (fst p, fst (snd p), fst (snd (snd p)))) cc) > MAX_COLORS
           then None
           else scan ps (bump (color_key (fst p, fst (snd p), fst (snd (snd p)))) cc) tc)"

definition keys_of :: "rgba list \<Rightarrow> string list" where
  "keys_of ps = map (\<lambda>p. color_key (fst p, fst (snd p), fst (snd (snd p)))) (filter is_opaque ps)"

definition tally :: "string list \<Rightarrow> (string, nat) js_map" where
  "tally ks = map (\<lambda>k. (k, count_list ks k)) (firsts ks)"

definition count_desc :: "(string \<times> nat) list \<Rightarrow> bool" where
  "count_desc xs = sorted_wrt (\<lambda>a b. snd a \<ge> snd b) xs"

definition entry :: "(string \<rightharpoonup> int) \<Rightarrow> string \<times> nat \<Rightarrow> string \<times> mapping" where
  "entry saved e =
     (fst e, \<lparr> m_hex = fst e, m_rgb = hexToRgb (fst e),
               tileId = (case saved (fst e) of Some t \<Rightarrow> t | None \<Rightarrow> 0), m_count = snd e \<rparr>)"

definition palette_of :: "(string \<rightharpoonup> int) \<Rightarrow> 8 word list \<Rightarrow> (string, mapping) js_map" where
  "palette_of saved pixels = map (entry saved) (js_sort byCountDesc (tally (opaque_keys pixels)))"

subsection \<open>Example inputs\<close>

text \<open>
  The client \<open>8.00\<close> of \<open>clients-data.js\<close> (OTBM version 2, OTB version 2, id 7); a
  2 by 2 image with two red pixels, a transparent pixel and a green pixel, red mapped to
  tile 100, green left at 0 and the transparent id set to 5; and a 1 by 1 image with the
  x offset 65535.
\<close>

definition scenario_clients :: "string \<Rightarrow> client_config option" where
  "scenario_clients name =
     (if name = ''8.00''
      then Some \<lparr> client_name = ''8.00'', client_otb = ''8.00'', client_otbmVersion = 2 \<rparr>
      else None)"

definition scenario_otbs :: "string \<Rightarrow> otb_version option" where
  "scenario_otbs name =
     (if name = ''8.00'' then Some \<lparr> otb_version_version = 2, otb_version_id = 7 \<rparr> else None)"

definition scenario_image :: image_data where
  "scenario_image =
     \<lparr> img_width = 2, img_height = 2,
       img_data = [255, 0, 0, 255,   9, 9, 9, 0,
                   0, 255, 0, 255,   255, 0, 0, 255] \<rparr>"

definition scenario_state :: app_state where
  "scenario_state =
     \<lparr> app_image = Some scenario_image, imageData = Some scenario_image,
       colorMappings =
         [(''#ff0000'', \<lparr> m_hex = ''#ff0000'', m_rgb = (255, 0, 0), tileId = 100, m_count = 2 \<rparr>),
          (''#00ff00'', \<lparr> m_hex = ''#00ff00'', m_rgb = (0, 255, 0), tileId = 0, m_count = 1 \<rparr>)],
       transparentPixelCount = 1,
       transparentTileId_value = Some 5, zLevel_value = Some 7,
       offsetX_value = Some 0, offsetY_value = Some 0,
       clientVersion_value = ''8.00'' \<rparr>"

definition overflow_state :: app_state where
  "overflow_state =
     \<lparr> app_image = Some \<lparr> img_width = 1, img_height = 1, img_data = [255, 0, 0, 255] \<rparr>,
       imageData = Some \<lparr> img_width = 1, img_height = 1, img_data = [255, 0, 0, 255] \<rparr>,
       colorMappings =
         [(''#ff0000'', \<lparr> m_hex = ''#ff0000'', m_rgb = (255, 0, 0), tileId = 100, m_count = 1 \<rparr>)],
       transparentPixelCount = 0,
       transparentTileId_value = Some 0, zLevel_value = Some 7,
       offsetX_value = Some 65535, offsetY_value = Some 0,
       clientVersion_value = ''8.00'' \<rparr>"

text \<open>
  A 3 by 2 image with one blue, two red and two green opaque pixels and one transparent
  pixel; a state with no image; and 257 pixels of 257 different opaque colours.
\<close>

definition tie_image :: image_data where
  "tie_image =
     \<lparr> img_width = 3, img_height = 2,
       img_data = [0, 0, 255, 255,   255, 0, 0, 255,   0, 255, 0, 255,
                   0, 255, 0, 200,   255, 0, 0, 128,   7, 7, 7, 127] \<rparr>"

definition empty_state :: app_state where
  "empty_state =
     \<lparr> app_image = None, imageData = None, colorMappings = [], transparentPixelCount = 0,
       transparentTileId_value = Some 0, zLevel_value = Some 7,
       offsetX_value = Some 0, offsetY_value = Some 0, clientVersion_value = ''8.00'' \<rparr>"

definition many_colors :: "8 word list" where
  "many_colors = concat (map (\<lambda>n. [of_nat (n mod 256), of_nat (n div 256), 0, 255]) [0..<257])"

section \<open>The writer produces the specified layout\<close>

lemmas otbm_consts =
  NODE_START_def NODE_END_def ESCAPE_def OTBM_ROOTV1_def OTBM_MAP_DATA_def
  OTBM_TILE_AREA_def OTBM_TILE_def OTBM_ITEM_def OTBM_TOWNS_def OTBM_WAYPOINTS_def
  OTBM_ATTR_DESCRIPTION_def OTBM_ATTR_ITEM_def

lemma and_255: "(v::int) AND 0xFF = v mod 256"
proof -
  have "v AND mask 8 = take_bit 8 v" by (simp only: take_bit_eq_mask)
  moreover have "mask 8 = (255::int)" by (simp add: mask_eq_exp_minus_1)
  ultimately show ?thesis by (simp add: take_bit_eq_mod)
qed

lemma shift_byte: "drop_bit n (v::int) AND 0xFF = v div 2 ^ n mod 256"
  by (simp only: and_255 drop_bit_eq_div)

lemma spec_escape_append: "spec_escape (a @ b) = spec_escape a @ spec_escape b"
  by (induction a) auto

lemma spec_unescape_escape_append:
  "spec_unescape (spec_escape a @ r) = a @ spec_unescape r"
  by (induction a) (auto simp: is_marker_def)

lemma push_push: "push a (push b w) = push (b @ a) w"
  by (simp add: push_def)

lemma push_Nil: "push [] w = w"
  by (simp add: push_def)

lemma writeByte_push: "writeByte v w = push [v mod 256] w"
  by (simp add: writeByte_def and_255)

lemma writeEscapedByte_push: "writeEscapedByte v w = push (spec_escape [v mod 256]) w"
  by (simp add: writeEscapedByte_def Let_def and_255 is_marker_def push_push
      NODE_START_def NODE_END_def ESCAPE_def)

lemma writeEscapedBytes_push:
  "writeEscapedBytes bs w = push (spec_escape (map (\<lambda>v. v mod 256) bs)) w"
  unfolding writeEscapedBytes_def
proof (induction bs arbitrary: w)
  case Nil
  show ?case by (simp add: push_Nil)
next
  case (Cons b bs)
  have "fold writeEscapedByte (b # bs) w = fold writeEscapedByte bs (writeEscapedByte b w)"
    by simp
  also have "\<dots> = push (spec_escape (map (\<lambda>v. v mod 256) bs)) (push (spec_escape [b mod 256]) w)"
    by (simp only: Cons.IH writeEscapedByte_push)
  also have "\<dots> = push (spec_escape [b mod 256] @ spec_escape (map (\<lambda>v. v mod 256) bs)) w"
    by (rule push_push)
  also have "spec_escape [b mod 256] @ spec_escape (map (\<lambda>v. v mod 256) bs)
      = spec_escape (map (\<lambda>v. v mod 256) (b # bs))"
    by simp
  finally show ?case .
qed

lemma writeEscapedByte_masked:
  "writeEscapedByte (drop_bit n v AND 0xFF) w = push (spec_escape [v div 2 ^ n mod 256]) w"
  by (simp only: writeEscapedByte_push shift_byte mod_mod_trivial)

lemma writeEscapedByte_masked0:
  "writeEscapedByte (v AND 0xFF) w = push (spec_escape [v mod 256]) w"
  by (simp only: writeEscapedByte_push and_255 mod_mod_trivial)

lemma spec_escape_Cons: "spec_escape (b # bs) = spec_escape [b] @ spec_escape bs"
  by simp

lemma writeU16_push: "writeU16 v w = push (spec_escape (u16_le v)) w"
proof -
  have e: "spec_escape (u16_le v) = spec_escape [v mod 256] @ spec_escape [v div 256 mod 256]"
    unfolding u16_le_def by (rule spec_escape_Cons)
  have "writeU16 v w = push (spec_escape [v div 2 ^ 8 mod 256]) (push (spec_escape [v mod 256]) w)"
    by (simp only: writeU16_def writeEscapedByte_masked0 drop_bit_eq_div)
  then show ?thesis
    by (simp only: push_push e) simp
qed

lemma writeU32_push: "writeU32 v w = push (spec_escape (u32_le v)) w"
proof -
  have e: "spec_escape (u32_le v) =
      spec_escape [v mod 256] @ spec_escape [v div 256 mod 256]
      @ spec_escape [v div 65536 mod 256] @ spec_escape [v div 16777216 mod 256]"
    unfolding u32_le_def
    by (simp only: spec_escape_Cons [of _ "_ # _"] append_assoc)
  have "writeU32 v w =
      push (spec_escape [v div 2 ^ 24 mod 256])
        (push (spec_escape [v div 2 ^ 16 mod 256])
          (push (spec_escape [v div 2 ^ 8 mod 256]) (push (spec_escape [v mod 256]) w)))"
    by (simp only: writeU32_def writeEscapedByte_masked0 drop_bit_eq_div)
  then show ?thesis
    by (simp only: push_push e append_assoc) simp
qed

lemma fold_push:
  assumes "\<And>v w. f v w = push (g v) w"
  shows "fold f vs w = push (concat (map g vs)) w"
proof (induction vs arbitrary: w)
  case Nil
  show ?case by (simp add: push_Nil)
next
  case (Cons v vs)
  have "fold f (v # vs) w = fold f vs (f v w)" by simp
  also have "\<dots> = push (concat (map g vs)) (push (g v) w)"
    by (simp only: Cons.IH assms)
  also have "\<dots> = push (concat (map g (v # vs))) w"
    by (simp add: push_push)
  finally show ?case .
qed

lemma startNode_push: "startNode ty w = push [0xFE, ty mod 256] w"
  by (simp add: startNode_def writeByte_push push_push NODE_START_def)

lemma endNode_push: "endNode w = push [0xFF] w"
  by (simp add: endNode_def NODE_END_def)

lemma writeString_push: "writeString s w = push (spec_string s) w"
proof -
  have "map (\<lambda>v. v mod 256) (map of_char s) = (map of_char s :: int list)"
    by (induction s) simp_all
  then show ?thesis
    by (simp add: writeString_def TextEncoder_encode_def Let_def writeEscapedBytes_push
        writeU16_push push_push spec_string_def del: map_map)
qed

lemma writeItem_push: "writeItem itemId w = push (spec_item_node itemId) w"
  by (simp add: writeItem_def startNode_push endNode_push writeU16_push push_push
      spec_item_node_def spec_node_def OTBM_ITEM_def)

lemma writeTile_push: "writeTile t baseX baseY w = push (spec_tile_node baseX baseY t) w"
  by (simp add: writeTile_def Let_def startNode_push endNode_push writeU16_push
      writeEscapedByte_push writeByte_push fold_push [of writeItem spec_item_node, OF writeItem_push]
      push_push spec_tile_node_def spec_node_def OTBM_TILE_def OTBM_ATTR_ITEM_def
      del: spec_escape.simps)

lemma writeTileArea_push:
  "writeTileArea (areaX a) (areaY a) (area_z a) (area_tiles a) w = push (spec_area_node a) w"
proof -
  have tiles: "\<And>w'. fold (\<lambda>t. writeTile t (areaX a) (areaY a)) (area_tiles a) w'
      = push (concat (map (spec_tile_node (areaX a) (areaY a)) (area_tiles a))) w'"
    by (rule fold_push) (rule writeTile_push)
  show ?thesis
    by (simp add: writeTileArea_def Let_def startNode_push endNode_push writeU16_push
        writeEscapedByte_push tiles push_push spec_area_node_def spec_node_def OTBM_TILE_AREA_def
        del: spec_escape.simps)
qed

lemma writeRootHeader_push: "writeRootHeader w = push (spec_root_header w) w"
  by (simp add: writeRootHeader_def writeU16_push writeU32_push push_push spec_root_header_def)

lemma push_fields [simp]:
  "description (push bs w) = description w"
  "tiles (push bs w) = tiles w"
  "otbmVersion (push bs w) = otbmVersion w"
  "width (push bs w) = width w"
  "height (push bs w) = height w"
  "otbMajorVersion (push bs w) = otbMajorVersion w"
  "otbMinorVersion (push bs w) = otbMinorVersion w"
  "buffer (push bs w) = buffer w @ bs"
  by (simp_all add: push_def)

lemma spec_root_header_push [simp]: "spec_root_header (push bs w) = spec_root_header w"
  by (simp add: spec_root_header_def)

lemma writeMapData_push:
  "writeMapData w =
     push (spec_map_data (description w) (otbmVersion w) (map_values (groupAreas (tiles w)))) w"
proof -
  have areas: "\<And>as w'. fold (\<lambda>a. writeTileArea (areaX a) (areaY a) (area_z a) (area_tiles a)) as w'
      = push (concat (map spec_area_node as)) w'"
    by (rule fold_push) (rule writeTileArea_push)
  show ?thesis
    by (simp add: writeMapData_def Let_def startNode_push endNode_push writeByte_push
        writeString_push areas push_push spec_map_data_def spec_node_def
        OTBM_MAP_DATA_def OTBM_ATTR_DESCRIPTION_def OTBM_TOWNS_def OTBM_WAYPOINTS_def)
qed

lemma buffer_generate_writer: "buffer (generate_writer w) = spec_document w"
proof -
  let ?w1 = "w\<lparr> buffer := [] \<rparr>"
  have f: "description ?w1 = description w" "otbmVersion ?w1 = otbmVersion w"
    "tiles ?w1 = tiles w" "spec_root_header ?w1 = spec_root_header w" "buffer ?w1 = []"
    by (simp_all add: spec_root_header_def)
  have "generate_writer w =
      push (spec_document w) ?w1"
    by (simp add: generate_writer_def Let_def startNode_push endNode_push writeRootHeader_push
        writeMapData_push push_push f spec_document_def spec_node_def OTBM_ROOTV1_def)
  then show ?thesis by (simp add: f)
qed

lemma byte_range_append [simp]: "byte_range (a @ b) = (byte_range a \<and> byte_range b)"
  by (simp add: byte_range_def)

lemma byte_range_Cons [simp]: "byte_range (b # bs) = (0 \<le> b \<and> b < 256 \<and> byte_range bs)"
  by (simp add: byte_range_def)

lemma byte_range_Nil [simp]: "byte_range []"
  by (simp add: byte_range_def)

lemma byte_range_concat: "(\<And>v. byte_range (g v)) \<Longrightarrow> byte_range (concat (map g vs))"
  by (induction vs) simp_all

lemma byte_range_escape [simp]: "byte_range (spec_escape bs) = byte_range bs"
  by (induction bs) auto

lemma byte_range_u16 [simp]: "byte_range (u16_le v)"
  by (simp add: u16_le_def)

lemma byte_range_u32 [simp]: "byte_range (u32_le v)"
  by (simp add: u32_le_def)

lemma of_char_byte: "0 \<le> (of_char c :: int) \<and> (of_char c :: int) < 256"
proof -
  have "(of_char c :: int) = of_char c mod 256" by simp
  moreover have "0 \<le> (of_char c :: int) mod 256" "(of_char c :: int) mod 256 < 256"
    by (rule pos_mod_sign, simp) (rule pos_mod_bound, simp)
  ultimately show ?thesis by simp
qed

lemma byte_range_chars [simp]: "byte_range (map of_char s)"
  by (induction s) (simp_all add: of_char_byte)

lemma byte_range_node [simp]:
  "byte_range (spec_node ty body) = (0 \<le> ty \<and> ty < 256 \<and> byte_range body)"
  by (auto simp: spec_node_def)

lemma byte_range_item [simp]: "byte_range (spec_item_node i)"
  by (simp add: spec_item_node_def)

lemma byte_range_tile [simp]: "byte_range (spec_tile_node bx by t)"
  by (simp add: spec_tile_node_def byte_range_concat del: spec_escape.simps)

lemma byte_range_area [simp]: "byte_range (spec_area_node a)"
  by (simp add: spec_area_node_def byte_range_concat del: spec_escape.simps)

lemma byte_range_document: "byte_range (spec_document w)"
  by (simp add: spec_document_def spec_root_header_def spec_map_data_def spec_string_def
      byte_range_concat)

lemma Uint8Array_id: "byte_range bs \<Longrightarrow> Uint8Array bs = bs"
  by (induction bs) (simp_all add: Uint8Array_def)

lemma generate_document: "generate w = spec_document w"
  by (simp add: generate_def buffer_generate_writer Uint8Array_id byte_range_document)

lemma count_append: "\<not> dangling a \<Longrightarrow> count_unescaped m (a @ b) = count_unescaped m a + count_unescaped m b"
proof (induction a rule: dangling.induct)
  case 1
  show ?case by simp
next
  case (2 x xs)
  show ?case
  proof (cases "x = 0xFD")
    case True
    with "2.prems" obtain c cs where xs: "xs = c # cs" and d: "\<not> dangling cs"
      by (cases xs) simp_all
    from "2.IH"(1) [OF True xs d] show ?thesis
      using True xs by simp
  next
    case False
    with "2.prems" have "\<not> dangling xs" by simp
    from "2.IH"(2) [OF False this] show ?thesis using False by simp
  qed
qed

lemma dangling_append: "\<not> dangling a \<Longrightarrow> dangling (a @ b) = dangling b"
proof (induction a rule: dangling.induct)
  case 1
  show ?case by simp
next
  case (2 x xs)
  show ?case
  proof (cases "x = 0xFD")
    case True
    with "2.prems" obtain c cs where xs: "xs = c # cs" and d: "\<not> dangling cs"
      by (cases xs) simp_all
    from "2.IH"(1) [OF True xs d] show ?thesis
      using True xs by simp
  next
    case False
    with "2.prems" have "\<not> dangling xs" by simp
    from "2.IH"(2) [OF False this] show ?thesis using False by simp
  qed
qed

lemma balanced_Nil [simp]: "balanced []"
  by (simp add: balanced_def)

lemma balanced_append:
  assumes "balanced a" "balanced b"
  shows "balanced (a @ b)"
proof -
  from assms have da: "\<not> dangling a" and db: "\<not> dangling b"
    and ca: "count_unescaped 0xFE a = count_unescaped 0xFF a"
    and cb: "count_unescaped 0xFE b = count_unescaped 0xFF b"
    and pa: "\<And>n. count_unescaped 0xFF (take n a) \<le> count_unescaped 0xFE (take n a)"
    and pb: "\<And>n. count_unescaped 0xFF (take n b) \<le> count_unescaped 0xFE (take n b)"
    by (simp_all add: balanced_def)
  have "count_unescaped 0xFF (take n (a @ b)) \<le> count_unescaped 0xFE (take n (a @ b))" for n
  proof (cases "n \<le> length a")
    case True
    then show ?thesis using pa [of n] by simp
  next
    case False
    then have "take n (a @ b) = a @ take (n - length a) b" by simp
    then show ?thesis
      using pb [of "n - length a"] ca by (simp add: count_append da)
  qed
  then show ?thesis
    using da db ca cb by (simp add: balanced_def count_append dangling_append)
qed

lemma balanced_concat: "(\<And>v. balanced (g v)) \<Longrightarrow> balanced (concat (map g vs))"
  by (induction vs) (simp_all add: balanced_append)

lemma balanced_plain: "b \<noteq> 0xFD \<Longrightarrow> b \<noteq> 0xFE \<Longrightarrow> b \<noteq> 0xFF \<Longrightarrow> balanced [b]"
proof -
  assume b: "b \<noteq> 0xFD" "b \<noteq> 0xFE" "b \<noteq> 0xFF"
  have "count_unescaped m (take n [b]) = 0" if "m = 0xFE \<or> m = 0xFF" for n m
    using that b by (cases n) auto
  then show ?thesis using b by (simp add: balanced_def)
qed

lemma balanced_escaped_byte: "balanced [0xFD, c]"
proof -
  have "count_unescaped m (take n [0xFD, c]) = 0" for n m
  proof (cases n)
    case 0
    then show ?thesis by simp
  next
    case (Suc k)
    then show ?thesis by (cases k) simp_all
  qed
  then show ?thesis by (simp add: balanced_def)
qed

lemma balanced_escape: "balanced (spec_escape bs)"
proof (induction bs)
  case Nil
  show ?case by simp
next
  case (Cons b bs)
  show ?case
  proof (cases "is_marker b")
    case True
    then have "spec_escape (b # bs) = [0xFD, b] @ spec_escape bs" by simp
    then show ?thesis using balanced_append [OF balanced_escaped_byte Cons.IH] by simp
  next
    case False
    then have e: "spec_escape (b # bs) = [b] @ spec_escape bs" by simp
    from False have "balanced [b]" by (intro balanced_plain) (auto simp: is_marker_def)
    then show ?thesis unfolding e using Cons.IH by (rule balanced_append)
  qed
qed

lemma balanced_node:
  assumes "balanced body" "\<not> is_marker ty"
  shows "balanced (spec_node ty body)"
proof -
  from assms(2) have ty: "ty \<noteq> 0xFD" "ty \<noteq> 0xFE" "ty \<noteq> 0xFF"
    by (simp_all add: is_marker_def)
  have open_bal: "balanced [ty]"
    using ty by (rule balanced_plain)
  define inner where "inner = [ty] @ body"
  have ib: "balanced inner"
    unfolding inner_def using open_bal assms(1) by (rule balanced_append)
  then have di: "\<not> dangling inner"
    and ci: "count_unescaped 0xFE inner = count_unescaped 0xFF inner"
    and pi: "\<And>n. count_unescaped 0xFF (take n inner) \<le> count_unescaped 0xFE (take n inner)"
    by (simp_all add: balanced_def)
  have node: "spec_node ty body = 0xFE # (inner @ [0xFF])"
    by (simp add: spec_node_def inner_def)
  have pre: "count_unescaped 0xFF (take n (spec_node ty body))
      \<le> count_unescaped 0xFE (take n (spec_node ty body))" for n
  proof (cases n)
    case 0
    then show ?thesis by simp
  next
    case (Suc k)
    show ?thesis
    proof (cases "k \<le> length inner")
      case True
      then have "take n (spec_node ty body) = 0xFE # take k inner"
        unfolding node Suc by simp
      then show ?thesis using pi [of k] by simp
    next
      case False
      then have "take n (spec_node ty body) = 0xFE # (inner @ [0xFF])"
        unfolding node Suc by simp
      then show ?thesis using ci by (simp add: count_append [OF di])
    qed
  qed
  have "count_unescaped 0xFE (spec_node ty body) = count_unescaped 0xFF (spec_node ty body)"
    unfolding node using ci by (simp add: count_append [OF di])
  moreover have "\<not> dangling (spec_node ty body)"
    unfolding node using di by (simp add: dangling_append)
  ultimately show ?thesis using pre by (simp add: balanced_def)
qed

lemma not_marker_consts:
  "\<not> is_marker 1" "\<not> is_marker 2" "\<not> is_marker 4" "\<not> is_marker 5" "\<not> is_marker 6"
  "\<not> is_marker 12" "\<not> is_marker 15"
  by (simp_all add: is_marker_def)

lemma balanced_plain': "\<not> is_marker b \<Longrightarrow> balanced [b]"
  by (rule balanced_plain) (simp_all add: is_marker_def)

lemma balanced_item: "balanced (spec_item_node i)"
  unfolding spec_item_node_def
  by (intro balanced_node balanced_escape not_marker_consts)

lemma balanced_tile: "balanced (spec_tile_node bx by t)"
  unfolding spec_tile_node_def
  by (intro balanced_node balanced_append balanced_escape balanced_concat balanced_item
        not_marker_consts balanced_plain') (simp add: is_marker_def)

lemma balanced_area: "balanced (spec_area_node a)"
  unfolding spec_area_node_def
  by (intro balanced_node balanced_append balanced_escape balanced_concat balanced_tile
        not_marker_consts)

lemma balanced_map_data: "balanced (spec_map_data desc ver areas)"
proof -
  have "balanced (if ver \<ge> 2 then spec_node 15 [] else [])"
    by (simp add: balanced_node not_marker_consts)
  then show ?thesis
    unfolding spec_map_data_def spec_string_def
    by (intro balanced_node balanced_append balanced_escape balanced_concat balanced_area
        not_marker_consts balanced_plain' balanced_Nil)
qed

lemma balanced_document: "balanced (spec_document w)"
proof -
  have magic: "balanced ([0x4F] @ [0x54] @ [0x42] @ [0x4D])"
    by (intro balanced_append balanced_plain') (simp_all add: is_marker_def)
  have root: "balanced (spec_node 1 (spec_root_header w
      @ spec_map_data (description w) (otbmVersion w) (map_values (groupAreas (tiles w)))))"
    unfolding spec_root_header_def
    by (intro balanced_node balanced_append balanced_escape balanced_map_data not_marker_consts)
  have "balanced (([0x4F] @ [0x54] @ [0x42] @ [0x4D]) @ spec_node 1 (spec_root_header w
      @ spec_map_data (description w) (otbmVersion w) (map_values (groupAreas (tiles w)))))"
    using magic root by (rule balanced_append)
  then show ?thesis
    by (simp add: spec_document_def)
qed

lemma le_step: "0 \<le> m \<Longrightarrow> (x::int) mod 256 + 256 * (x div 256 mod m) = x mod (256 * m)"
  using zmod_zmult2_eq [of m x 256] by simp

lemma le_value_u16: "le_value (u16_le v) = v mod 65536"
proof -
  have "v mod 256 + 256 * (v div 256 mod 256) = v mod (256 * 256)"
    by (rule le_step) simp
  then show ?thesis
    by (simp add: u16_le_def)
qed


lemma div_div_256: "(v::int) div 256 div 256 = v div 65536" "(v::int) div 65536 div 256 = v div 16777216"
  using zdiv_zmult2_eq [of 256 v 256] zdiv_zmult2_eq [of 256 v 65536] by simp_all

lemma le_value_u32: "le_value (u32_le v) = v mod 4294967296"
proof -
  define x1 where "x1 = v div 256"
  define x2 where "x2 = x1 div 256"
  define x3 where "x3 = x2 div 256"
  have c: "x2 mod 256 + 256 * (x3 mod 256) = x2 mod (256 * 256)"
    unfolding x3_def by (rule le_step) simp
  have b: "x1 mod 256 + 256 * (x2 mod (256 * 256)) = x1 mod (256 * (256 * 256))"
    unfolding x2_def by (rule le_step) simp
  have a: "v mod 256 + 256 * (x1 mod (256 * (256 * 256))) = v mod (256 * (256 * (256 * 256)))"
    unfolding x1_def by (rule le_step) simp
  have "le_value [v mod 256, x1 mod 256, x2 mod 256, x3 mod 256]
      = v mod 256 + 256 * (x1 mod 256 + 256 * (x2 mod 256 + 256 * (x3 mod 256)))"
    by simp
  also have "\<dots> = v mod (256 * (256 * (256 * 256)))"
    by (simp only: c b a)
  finally have "le_value [v mod 256, x1 mod 256, x2 mod 256, x3 mod 256] = v mod 4294967296"
    by simp
  moreover have "x2 = v div 65536" "x3 = v div 16777216"
    by (simp_all add: x3_def x2_def x1_def div_div_256)
  ultimately show ?thesis
    by (simp only: u32_le_def x1_def)
qed

lemma unescape_escape: "spec_unescape (spec_escape bs) = bs"
  using spec_unescape_escape_append [of bs "[]"] by simp

lemma length_escape: "length (spec_escape bs) = length bs + length (filter is_marker bs)"
  by (induction bs) simp_all

subsection \<open>The claims about the writer\<close>

text \<open>
  Claim C1. For every writer state the generated bytes are the four magic bytes
  \<open>0x4F 0x54 0x42 0x4D\<close>, unescaped, then the start marker and the type byte 1 of the root
  node, then the escaped little-endian encodings of \<open>otbmVersion\<close> (32 bits), the map width
  and height (16 bits each) and the OTB major and minor versions (32 bits each), in this
  order; the map-data node and the end marker of the root node follow. The bytes of an
  encoding, read with the least significant byte first, give back the low 32 (or 16)
  bits of the number.
\<close>

theorem generate_magic_and_root_header:
  "generate w =
     [0x4F, 0x54, 0x42, 0x4D] @ [0xFE, 1]
     @ spec_escape (u32_le (otbmVersion w))
     @ spec_escape (u16_le (width w))
     @ spec_escape (u16_le (height w))
     @ spec_escape (u32_le (otbMajorVersion w))
     @ spec_escape (u32_le (otbMinorVersion w))
     @ spec_map_data (description w) (otbmVersion w) (map_values (groupAreas (tiles w)))
     @ [0xFF]
   \<and> (\<forall>v. le_value (u32_le v) = v mod 2 ^ 32 \<and> le_value (u16_le v) = v mod 2 ^ 16)"
  by (simp add: generate_document spec_document_def spec_node_def spec_root_header_def
      le_value_u16 le_value_u32)

text \<open>
  Claim C2. A byte written as payload (by \<open>_writeEscapedByte\<close>, and through it by
  \<open>_writeEscapedBytes\<close>, \<open>_writeU16\<close>, \<open>_writeU32\<close> and \<open>_writeString\<close>) is preceded by
  exactly one \<open>0xFD\<close> when it is \<open>0xFE\<close>, \<open>0xFF\<close> or \<open>0xFD\<close>, and by nothing otherwise; the
  escape byte is not escaped again, so the escaped form is longer than the data by the
  number of such bytes. The node markers and the type byte are written as they are.
  Stripping the escape bytes gives back the data bytes.
\<close>

theorem escaping_rule:
  "writeEscapedByte v w =
     push (if v mod 256 = 0xFE \<or> v mod 256 = 0xFF \<or> v mod 256 = 0xFD
           then [0xFD, v mod 256] else [v mod 256]) w
   \<and> writeEscapedBytes bs w = push (spec_escape (map (\<lambda>b. b mod 256) bs)) w
   \<and> writeU16 v w = push (spec_escape (u16_le v)) w
   \<and> writeU32 v w = push (spec_escape (u32_le v)) w
   \<and> writeString s w =
       push (spec_escape (u16_le (int (length s))) @ spec_escape (map of_char s)) w
   \<and> startNode ty w = push [0xFE, ty mod 256] w
   \<and> endNode w = push [0xFF] w
   \<and> writeByte v w = push [v mod 256] w
   \<and> length (spec_escape ds) = length ds + length (filter is_marker ds)
   \<and> spec_unescape (spec_escape ds) = ds
   \<and> spec_unescape (buffer (writeEscapedBytes bs (w\<lparr> buffer := [] \<rparr>))) = map (\<lambda>b. b mod 256) bs
   \<and> spec_unescape (buffer (writeString s (w\<lparr> buffer := [] \<rparr>)))
       = u16_le (int (length s)) @ map of_char s"
proof -
  have one: "writeEscapedByte v w =
     push (if v mod 256 = 0xFE \<or> v mod 256 = 0xFF \<or> v mod 256 = 0xFD
           then [0xFD, v mod 256] else [v mod 256]) w"
    by (simp add: writeEscapedByte_push is_marker_def)
  have str: "writeString s w =
       push (spec_escape (u16_le (int (length s))) @ spec_escape (map of_char s)) w" for w
    by (simp only: writeString_push spec_string_def)
  have "spec_unescape (spec_escape (u16_le (int (length s))) @ spec_escape (map of_char s))
      = u16_le (int (length s)) @ map of_char s"
    by (simp only: spec_unescape_escape_append unescape_escape)
  then have rt: "spec_unescape (buffer (writeString s (w\<lparr> buffer := [] \<rparr>)))
       = u16_le (int (length s)) @ map of_char s"
    by (simp only: str push_fields) simp
  have rb: "spec_unescape (buffer (writeEscapedBytes bs (w\<lparr> buffer := [] \<rparr>)))
      = map (\<lambda>b. b mod 256) bs"
    by (simp only: writeEscapedBytes_push push_fields) (simp add: unescape_escape)
  show ?thesis
    by (intro conjI one str rt rb writeEscapedBytes_push writeU16_push writeU32_push
        startNode_push endNode_push writeByte_push length_escape unescape_escape)
qed

text \<open>
  Claim C3. In every generated stream the start markers and the end markers that are
  not escaped are equally many, and no prefix of the stream has more end markers
  than start markers.
\<close>

theorem markers_well_nested:
  "count_unescaped 0xFE (generate w) = count_unescaped 0xFF (generate w)
   \<and> (\<forall>n. count_unescaped 0xFF (take n (generate w))
          \<le> count_unescaped 0xFE (take n (generate w)))"
  using balanced_document [of w] by (simp add: generate_document balanced_def)

section \<open>Grouping tiles into areas\<close>

lemma toStringNat_nonempty: "toStringNat n \<noteq> []"
  by (subst toStringNat.simps) simp

lemma digit_inj: "d < 10 \<Longrightarrow> e < 10 \<Longrightarrow> char_of (48 + (d::nat)) = char_of (48 + (e::nat)) \<Longrightarrow> d = e"
proof -
  assume a: "d < 10" "e < 10" "char_of (48 + d) = char_of (48 + e)"
  then have "(48 + d) mod 256 = (48 + e) mod 256"
    by (simp add: char_of_eq_iff take_bit_eq_mod)
  with a show ?thesis by simp
qed

lemma digit_not_sep:
  assumes "d < 10"
  shows "char_of (48 + (d::nat)) \<noteq> CHR '',''" "char_of (48 + (d::nat)) \<noteq> CHR ''-''"
proof -
  have v: "(of_char (char_of (48 + d)) :: nat) = 48 + d"
    using assms by simp
  show "char_of (48 + (d::nat)) \<noteq> CHR '',''"
  proof
    assume "char_of (48 + d) = CHR '',''"
    then have "(of_char (char_of (48 + d)) :: nat) = of_char CHR '',''" by simp
    then show False unfolding v by simp
  qed
  show "char_of (48 + (d::nat)) \<noteq> CHR ''-''"
  proof
    assume "char_of (48 + d) = CHR ''-''"
    then have "(of_char (char_of (48 + d)) :: nat) = of_char CHR ''-''" by simp
    then show False unfolding v by simp
  qed
qed

lemma toStringNat_digits: "c \<in> set (toStringNat n) \<Longrightarrow> is_digit c"
proof (induction n arbitrary: c rule: toStringNat.induct)
  case (1 n)
  show ?case
  proof (cases "n < 10")
    case True
    with "1.prems" show ?thesis
      by (subst (asm) toStringNat.simps) (auto simp: is_digit_def)
  next
    case False
    with "1.prems" have "c \<in> set (toStringNat (n div 10)) \<or> c = char_of (48 + n mod 10)"
      by (subst (asm) toStringNat.simps) auto
    then show ?thesis
    proof
      assume "c \<in> set (toStringNat (n div 10))"
      then show ?thesis by (rule "1.IH" [OF False])
    next
      assume "c = char_of (48 + n mod 10)"
      then show ?thesis unfolding is_digit_def by (intro exI [of _ "n mod 10"]) simp
    qed
  qed
qed

lemma toStringNat_inj: "toStringNat m = toStringNat n \<Longrightarrow> m = n"
proof (induction m arbitrary: n rule: toStringNat.induct)
  case (1 m)
  have em: "toStringNat m = (if m < 10 then [char_of (48 + m)]
      else toStringNat (m div 10) @ [char_of (48 + m mod 10)])"
    by (rule toStringNat.simps)
  have en: "toStringNat n = (if n < 10 then [char_of (48 + n)]
      else toStringNat (n div 10) @ [char_of (48 + n mod 10)])"
    by (rule toStringNat.simps)
  show ?case
  proof (cases "m < 10")
    case m: True
    show ?thesis
    proof (cases "n < 10")
      case True
      with m "1.prems" em en show ?thesis by (auto dest: digit_inj)
    next
      case False
      with m "1.prems" em en have "[char_of (48 + m)] = toStringNat (n div 10) @ [char_of (48 + n mod 10)]"
        by simp
      then have "toStringNat (n div 10) = []" by (simp add: Cons_eq_append_conv)
      then show ?thesis by (simp add: toStringNat_nonempty)
    qed
  next
    case m: False
    show ?thesis
    proof (cases "n < 10")
      case True
      with m "1.prems" em en have "toStringNat (m div 10) @ [char_of (48 + m mod 10)] = [char_of (48 + n)]"
        by simp
      then have "toStringNat (m div 10) = []" by (simp add: append_eq_Cons_conv)
      then show ?thesis by (simp add: toStringNat_nonempty)
    next
      case False
      with m "1.prems" em en have
        "toStringNat (m div 10) = toStringNat (n div 10)"
        "char_of (48 + m mod 10) = char_of (48 + n mod 10)"
        by simp_all
      then have "m div 10 = n div 10" "m mod 10 = n mod 10"
        using "1.IH" [OF m] digit_inj [of "m mod 10" "n mod 10"] by simp_all
      then show ?thesis by (metis div_mult_mod_eq)
    qed
  qed
qed

lemma is_digit_not_sep: "is_digit c \<Longrightarrow> c \<noteq> CHR '','' \<and> c \<noteq> CHR ''-''"
  by (auto simp: is_digit_def dest: digit_not_sep)

lemma toString_no_comma: "CHR '','' \<notin> set (toString i)"
proof
  assume "CHR '','' \<in> set (toString i)"
  then have "CHR '','' \<in> set (toStringNat (nat (- i))) \<or> CHR '','' \<in> set (toStringNat (nat i))"
    by (auto simp: toString_def split: if_splits)
  then have "is_digit CHR '',''" by (auto dest: toStringNat_digits)
  then show False by (auto dest: is_digit_not_sep)
qed

lemma toStringNat_not_minus: "toStringNat n \<noteq> CHR ''-'' # r"
proof
  assume a: "toStringNat n = CHR ''-'' # r"
  then have "CHR ''-'' \<in> set (toStringNat n)" by simp
  then have "is_digit CHR ''-''" by (rule toStringNat_digits)
  then show False by (auto dest: is_digit_not_sep)
qed

lemma toString_inj: "toString i = toString j \<Longrightarrow> i = j"
proof -
  assume a: "toString i = toString j"
  show ?thesis
  proof (cases "i < 0")
    case i: True
    show ?thesis
    proof (cases "j < 0")
      case True
      with i a have "toStringNat (nat (- i)) = toStringNat (nat (- j))"
        by (simp add: toString_def)
      then have "nat (- i) = nat (- j)" by (rule toStringNat_inj)
      with i True show ?thesis by simp
    next
      case False
      with i a have "toStringNat (nat j) = CHR ''-'' # toStringNat (nat (- i))"
        by (simp add: toString_def)
      then show ?thesis by (simp add: toStringNat_not_minus)
    qed
  next
    case i: False
    show ?thesis
    proof (cases "j < 0")
      case True
      with i a have "toStringNat (nat i) = CHR ''-'' # toStringNat (nat (- j))"
        by (simp add: toString_def)
      then show ?thesis by (simp add: toStringNat_not_minus)
    next
      case False
      with i a have "toStringNat (nat i) = toStringNat (nat j)"
        by (simp add: toString_def)
      then have "nat i = nat j" by (rule toStringNat_inj)
      with i False show ?thesis by simp
    qed
  qed
qed

lemma split_at_sep:
  "c \<notin> set a \<Longrightarrow> c \<notin> set a' \<Longrightarrow> a @ c # r = a' @ c # r' \<Longrightarrow> a = a' \<and> r = r'"
proof (induction a arbitrary: a')
  case Nil
  then show ?case by (cases a') auto
next
  case (Cons x xs)
  then show ?case by (cases a') auto
qed

lemma areaKey_inj:
  "areaKey ax ay z = areaKey ax' ay' z' \<longleftrightarrow> ax = ax' \<and> ay = ay' \<and> z = z'"
proof
  assume "areaKey ax ay z = areaKey ax' ay' z'"
  then have e: "toString ax @ CHR '','' # (toString ay @ CHR '','' # toString z)
      = toString ax' @ CHR '','' # (toString ay' @ CHR '','' # toString z')"
    by (simp add: areaKey_def)
  from split_at_sep [OF toString_no_comma toString_no_comma e]
  have x: "toString ax = toString ax'"
    and r: "toString ay @ CHR '','' # toString z = toString ay' @ CHR '','' # toString z'"
    by simp_all
  from split_at_sep [OF toString_no_comma toString_no_comma r]
  have "toString ay = toString ay'" "toString z = toString z'" by simp_all
  with x show "ax = ax' \<and> ay = ay' \<and> z = z'" by (auto dest: toString_inj)
next
  assume "ax = ax' \<and> ay = ay' \<and> z = z'"
  then show "areaKey ax ay z = areaKey ax' ay' z'" by simp
qed

lemma firsts_Nil [simp]: "firsts [] = []"
  by (simp add: firsts_def)

lemma firsts_snoc: "firsts (xs @ [x]) = (if x \<in> set xs then firsts xs else firsts xs @ [x])"
  by (simp add: firsts_def)

lemma set_firsts [simp]: "set (firsts xs) = set xs"
  by (simp add: firsts_def)

lemma distinct_firsts [simp]: "distinct (firsts xs)"
  by (simp add: firsts_def)

lemma map_has_keys: "map_has (map (\<lambda>k. (k, f k)) ks) k = (k \<in> set ks)"
  by (auto simp: map_has_def image_iff)

lemma map_get_keys: "map_get (map (\<lambda>k. (k, f k)) ks) k = (if k \<in> set ks then Some (f k) else None)"
  by (induction ks) (auto simp: map_get_def)

lemma map_set_absent:
  "k \<notin> fst ` set m \<Longrightarrow> map_set m k v = m @ [(k, v)]"
  by (induction m) auto

lemma map_set_present:
  "k \<in> set ks \<Longrightarrow> distinct ks \<Longrightarrow>
   map_set (map (\<lambda>k'. (k', f k')) ks) k v = map (\<lambda>k'. (k', if k' = k then v else f k')) ks"
proof (induction ks)
  case Nil
  then show ?case by simp
next
  case (Cons a ks)
  show ?case
  proof (cases "a = k")
    case True
    with Cons.prems have "k \<notin> set ks" by simp
    then have "map (\<lambda>k'. (k', if k' = k then v else f k')) ks = map (\<lambda>k'. (k', f k')) ks"
      by (intro map_cong) auto
    with True show ?thesis by simp
  next
    case False
    with Cons show ?thesis by simp
  qed
qed

lemma map_get_snoc: "map_get (m @ [(k, v)]) k = (case map_get m k of None \<Rightarrow> Some v | Some u \<Rightarrow> Some u)"
  by (simp add: map_get_def map_add_def split: option.splits)

lemma map_set_last: "k \<notin> fst ` set m \<Longrightarrow> map_set (m @ [(k, u)]) k v = m @ [(k, v)]"
  by (induction m) auto

lemma groupAreas_snoc: "groupAreas (ts @ [t]) = groupStep t (groupAreas ts)"
  by (simp add: groupAreas_def)

lemma groupAreas_char:
  "groupAreas ts = map (\<lambda>k. (k, area_of k ts)) (firsts (map tileKey ts))"
proof (induction ts rule: rev_induct)
  case Nil
  show ?case by (simp add: groupAreas_def)
next
  case (snoc t ts)
  define ks where "ks = firsts (map tileKey ts)"
  define k where "k = tileKey t"
  have IH: "groupAreas ts = map (\<lambda>k. (k, area_of k ts)) ks"
    using snoc.IH by (simp add: ks_def)
  have keys: "fst ` set (groupAreas ts) = set ks"
    unfolding IH by (auto simp: image_iff)
  have other: "area_of k' (ts @ [t]) = area_of k' ts" if "k' \<noteq> k" for k'
    using that by (simp add: area_of_def k_def)
  show ?case
  proof (cases "k \<in> set ks")
    case True
    then obtain t0 where t0: "t0 \<in> set ts" "tileKey t0 = k"
      by (auto simp: ks_def)
    then have ne: "filter (\<lambda>t. tileKey t = k) ts \<noteq> []"
      by (auto simp: filter_empty_conv)
    have same: "area_of k (ts @ [t]) = (area_of k ts)\<lparr> area_tiles := area_tiles (area_of k ts) @ [t] \<rparr>"
      using ne by (simp add: area_of_def k_def Let_def)
    have "groupStep t (groupAreas ts)
        = map_set (groupAreas ts) k ((area_of k ts)\<lparr> area_tiles := area_tiles (area_of k ts) @ [t] \<rparr>)"
      using True
      by (simp add: groupStep_def Let_def k_def [symmetric] tileKey_def [symmetric]
          IH map_has_keys map_get_keys)
    also have "\<dots> = map (\<lambda>k'. (k', if k' = k then area_of k (ts @ [t]) else area_of k' ts)) ks"
      unfolding IH same [symmetric]
      by (rule map_set_present) (use True in \<open>simp_all add: ks_def\<close>)
    also have "\<dots> = map (\<lambda>k'. (k', area_of k' (ts @ [t]))) ks"
      by (intro map_cong) (auto simp: other)
    also have "ks = firsts (map tileKey (ts @ [t]))"
      using True by (simp add: firsts_snoc ks_def k_def)
    finally show ?thesis by (simp add: groupAreas_snoc)
  next
    case False
    then have none: "filter (\<lambda>t. tileKey t = k) ts = []"
      by (auto simp: ks_def filter_empty_conv)
    have new: "area_of k (ts @ [t]) =
        \<lparr> areaX = tile_x t AND 0xFF00, areaY = tile_y t AND 0xFF00, area_z = tile_z t,
          area_tiles = [t] \<rparr>"
      using none by (simp add: area_of_def k_def Let_def)
    have nk: "k \<notin> fst ` set (groupAreas ts)"
      using False keys by simp
    have mg: "map_get (groupAreas ts) k = None"
      unfolding IH using False by (simp add: map_get_keys)
    have "groupStep t (groupAreas ts) = groupAreas ts @ [(k, area_of k (ts @ [t]))]"
      using False nk mg
      by (simp add: groupStep_def Let_def k_def [symmetric] tileKey_def [symmetric]
          map_has_def map_set_absent map_get_snoc map_set_last new
          split: option.splits)
    also have "\<dots> = map (\<lambda>k'. (k', area_of k' (ts @ [t]))) (ks @ [k])"
    proof -
      have "k' \<noteq> k" if "k' \<in> set ks" for k'
        using that False by auto
      then have "map (\<lambda>k'. (k', area_of k' ts)) ks = map (\<lambda>k'. (k', area_of k' (ts @ [t]))) ks"
        by (intro map_cong) (simp_all add: other)
      then show ?thesis unfolding IH by simp
    qed
    also have "ks @ [k] = firsts (map tileKey (ts @ [t]))"
      using False by (simp add: firsts_snoc ks_def k_def)
    finally show ?thesis by (simp add: groupAreas_snoc)
  qed
qed

lemma and_FF00: "(x::int) AND 0xFF00 = 256 * (x div 256 mod 256)"
proof -
  have m: "(0xFF00::int) = mask (8 + 8) AND NOT (mask 8)"
    by (simp add: mask_eq_exp_minus_1)
  have "push_bit 8 (take_bit 8 (drop_bit 8 x)) = x AND mask (8 + 8) AND NOT (mask 8)"
    by (rule slice_eq_mask)
  then have "x AND 0xFF00 = push_bit 8 (take_bit 8 (drop_bit 8 x))"
    by (simp only: m and.assoc)
  then show ?thesis
    by (simp add: push_bit_eq_mult take_bit_eq_mod drop_bit_eq_div)
qed

lemma and_not_FF: "(x::int) AND NOT 0xFF = 256 * (x div 256)"
proof -
  have "x AND NOT (mask 8) = push_bit 8 (drop_bit 8 x)"
    by (rule bit_eqI) (auto simp: bit_simps)
  moreover have "mask 8 = (0xFF::int)" by (simp add: mask_eq_exp_minus_1)
  ultimately show ?thesis
    by (simp add: push_bit_eq_mult drop_bit_eq_div)
qed

lemma and_FF00_in_range:
  assumes "0 \<le> x" "x \<le> 65535"
  shows "(x::int) AND 0xFF00 = x AND NOT 0xFF"
proof -
  from assms have "0 \<le> x div 256" "x div 256 < 256" by simp_all
  then have "x div 256 mod 256 = x div 256" by simp
  then show ?thesis by (simp only: and_FF00 and_not_FF)
qed

lemma and_FF00_offset:
  assumes "0 \<le> x" "x \<le> 65535"
  shows "(x::int) - (x AND 0xFF00) = x mod 256"
proof -
  from assms have "0 \<le> x div 256" "x div 256 < 256" by simp_all
  then have "x div 256 mod 256 = x div 256" by simp
  then have "x AND 0xFF00 = 256 * (x div 256)" by (simp only: and_FF00)
  moreover have "256 * (x div 256) + x mod 256 = x" by simp
  ultimately show ?thesis by linarith
qed

lemma key_string_inj: "key_string c = key_string d \<longleftrightarrow> c = d"
  by (cases c; cases d) (simp add: key_string_def areaKey_inj)

lemma tileKey_code_key: "tileKey t = key_string (code_key t)"
  by (simp add: tileKey_def key_string_def code_key_def)

lemma firsts_map_inj:
  assumes "inj f"
  shows "firsts (map f xs) = map f (firsts xs)"
proof (induction xs rule: rev_induct)
  case Nil
  show ?case by simp
next
  case (snoc x xs)
  have "f x \<in> f ` set xs \<longleftrightarrow> x \<in> set xs"
    using assms by (auto dest: injD)
  then show ?case by (simp add: firsts_snoc snoc.IH)
qed

lemma area_of_key_string:
  assumes "c \<in> code_key ` set ts"
  shows "area_of (key_string c) ts = area_for c ts"
proof -
  have f: "filter (\<lambda>t. tileKey t = key_string c) ts = filter (\<lambda>t. code_key t = c) ts"
    by (simp add: tileKey_code_key key_string_inj)
  from assms have "filter (\<lambda>t. code_key t = c) ts \<noteq> []"
    by (auto simp: filter_empty_conv)
  then have "hd (filter (\<lambda>t. code_key t = c) ts) \<in> set (filter (\<lambda>t. code_key t = c) ts)"
    by (rule hd_in_set)
  then have h: "code_key (hd (filter (\<lambda>t. code_key t = c) ts)) = c" by simp
  define t0 where "t0 = hd (filter (\<lambda>t. code_key t = c) ts)"
  have "area_of (key_string c) ts =
      \<lparr> areaX = fst (code_key t0), areaY = fst (snd (code_key t0)), area_z = snd (snd (code_key t0)),
        area_tiles = filter (\<lambda>t. code_key t = c) ts \<rparr>"
    unfolding area_of_def f Let_def t0_def by (simp add: code_key_def)
  then show ?thesis
    using h by (simp add: area_for_def t0_def)
qed

lemma groupAreas_values:
  "map_values (groupAreas ts) = map (\<lambda>c. area_for c ts) (firsts (map code_key ts))"
proof -
  have "inj key_string" by (rule injI) (simp add: key_string_inj)
  then have "firsts (map tileKey ts) = map key_string (firsts (map code_key ts))"
    using firsts_map_inj [of key_string "map code_key ts"]
    by (simp add: tileKey_code_key [abs_def] comp_def)
  then have "map_values (groupAreas ts)
      = map (\<lambda>c. area_of (key_string c) ts) (firsts (map code_key ts))"
    by (simp add: groupAreas_char map_values_def comp_def)
  also have "\<dots> = map (\<lambda>c. area_for c ts) (firsts (map code_key ts))"
    by (intro map_cong refl area_of_key_string) simp
  finally show ?thesis .
qed

lemma code_key_in_range: "in_map_range t \<Longrightarrow> code_key t = spec_area_key t"
  by (simp add: in_map_range_def code_key_def spec_area_key_def and_FF00_in_range)

lemma area_key_area_for [simp]: "area_key (area_for c ts) = c"
  by (simp add: area_key_def area_for_def)

lemma area_tiles_area_for [simp]: "area_tiles (area_for c ts) = filter (\<lambda>t. code_key t = c) ts"
  by (simp add: area_for_def)

lemma area_key_inj_for: "area_for c ts = area_for d ts \<Longrightarrow> c = d"
  using area_key_area_for by metis

lemma areas_code:
  fixes ts defines "as \<equiv> map_values (groupAreas ts)"
  shows "map area_key as = firsts (map code_key ts)"
    and "\<And>a. a \<in> set as \<Longrightarrow> area_tiles a = filter (\<lambda>t. code_key t = area_key a) ts"
    and "\<And>a. a \<in> set as \<Longrightarrow> area_tiles a \<noteq> []"
    and "\<And>a. a \<in> set as \<Longrightarrow> areaX a mod 256 = 0 \<and> areaY a mod 256 = 0"
    and "\<And>t. t \<in> set ts \<Longrightarrow> \<exists>!a. a \<in> set as \<and> t \<in> set (area_tiles a)"
proof -
  have as: "as = map (\<lambda>c. area_for c ts) (firsts (map code_key ts))"
    unfolding as_def by (rule groupAreas_values)
  show "map area_key as = firsts (map code_key ts)"
    unfolding as by (simp add: comp_def)
  have mem: "a \<in> set as \<longleftrightarrow> (\<exists>t\<in>set ts. a = area_for (code_key t) ts)" for a
    unfolding as by auto
  show "area_tiles a = filter (\<lambda>t. code_key t = area_key a) ts" if "a \<in> set as" for a
    using that unfolding mem by auto
  show "area_tiles a \<noteq> []" if "a \<in> set as" for a
    using that unfolding mem by (auto simp: filter_empty_conv)
  show "areaX a mod 256 = 0 \<and> areaY a mod 256 = 0" if "a \<in> set as" for a
    using that unfolding mem by (auto simp: area_for_def code_key_def and_FF00)
  show "\<exists>!a. a \<in> set as \<and> t \<in> set (area_tiles a)" if "t \<in> set ts" for t
  proof (rule ex1I [of _ "area_for (code_key t) ts"])
    show "area_for (code_key t) ts \<in> set as \<and> t \<in> set (area_tiles (area_for (code_key t) ts))"
      using that unfolding mem by auto
  next
    fix a assume "a \<in> set as \<and> t \<in> set (area_tiles a)"
    then show "a = area_for (code_key t) ts"
      unfolding mem by auto
  qed
qed

lemma tile_node_offsets:
  assumes "in_map_range t" "code_key t = (bx, by, z)"
  shows "0 \<le> tile_x t - bx \<and> tile_x t - bx \<le> 255 \<and> 0 \<le> tile_y t - by \<and> tile_y t - by \<le> 255"
    and "spec_tile_node bx by t =
      spec_node 5 (spec_escape [tile_x t - bx] @ spec_escape [tile_y t - by] @ [9]
        @ spec_escape (u16_le (groundId t)) @ concat (map spec_item_node (items t)))"
proof -
  from assms have x: "tile_x t - bx = tile_x t mod 256" and y: "tile_y t - by = tile_y t mod 256"
    by (simp_all add: code_key_def in_map_range_def and_FF00_offset [symmetric])
  have "tile_x t mod 256 \<le> 255" "tile_y t mod 256 \<le> 255"
    using pos_mod_bound [of 256 "tile_x t"] pos_mod_bound [of 256 "tile_y t"] by linarith+
  then show "0 \<le> tile_x t - bx \<and> tile_x t - bx \<le> 255 \<and> 0 \<le> tile_y t - by \<and> tile_y t - by \<le> 255"
    unfolding x y by simp
  show "spec_tile_node bx by t =
      spec_node 5 (spec_escape [tile_x t - bx] @ spec_escape [tile_y t - by] @ [9]
        @ spec_escape (u16_le (groundId t)) @ concat (map spec_item_node (items t)))"
    unfolding spec_tile_node_def x y by simp
qed

lemma u16_le_mod: "u16_le (v mod 65536) = u16_le v"
proof -
  have "v mod (256 * 256) = 256 * (v div 256 mod 256) + v mod 256"
    by (rule zmod_zmult2_eq) simp
  then have e: "v mod 65536 = v mod 256 + (v div 256 mod 256) * 256" by simp
  have b: "0 \<le> v mod 256" "v mod 256 < 256" by simp_all
  have "(v mod 65536) div 256 = v div 256 mod 256"
    unfolding e using b by simp
  moreover have "(v mod 65536) mod 256 = v mod 256"
    unfolding e by simp
  ultimately show ?thesis by (simp add: u16_le_def)
qed

lemma same_encoding_filter:
  assumes "list_all2 same_encoding ts ts'"
  shows "concat (map (spec_tile_node bx by) (filter (\<lambda>t. code_key t = c) ts))
       = concat (map (spec_tile_node bx by) (filter (\<lambda>t. code_key t = c) ts'))"
  using assms by (induction rule: list_all2_induct) (auto simp: same_encoding_def)

lemma same_encoding_keys:
  assumes "list_all2 same_encoding ts ts'"
  shows "map code_key ts = map code_key ts'"
  using assms by (induction rule: list_all2_induct) (auto simp: same_encoding_def)

lemma same_encoding_areas:
  assumes "list_all2 same_encoding ts ts'"
  shows "map spec_area_node (map_values (groupAreas ts))
       = map spec_area_node (map_values (groupAreas ts'))"
proof -
  have "spec_area_node (area_for c ts) = spec_area_node (area_for c ts')" for c
    unfolding spec_area_node_def using same_encoding_filter [OF assms]
    by (simp add: area_for_def)
  then show ?thesis
    by (simp add: groupAreas_values same_encoding_keys [OF assms] comp_def)
qed

lemma generate_same_encoding:
  assumes "list_all2 same_encoding (tiles w) ts'"
  shows "generate (w\<lparr> tiles := ts' \<rparr>) = generate w"
  using same_encoding_areas [OF assms]
  by (simp add: generate_document spec_document_def spec_root_header_def spec_map_data_def)

lemma same_encoding_refl: "list_all2 same_encoding ts ts"
  by (simp add: list_all2_refl same_encoding_def)

subsection \<open>The claims about areas and tile ids\<close>

text \<open>
  Claim C8. For every tile list: no two areas have the same key; every tile is in
  exactly one area; the base of an area is a multiple of 256; the tiles of an area are
  the tiles of the list with the area's key, in the order of the list; and the areas
  appear in the order in which their keys are first seen, the key of a tile being
  \<open>(x & 0xFF00, y & 0xFF00, z)\<close> as the loop computes it. For the tiles of the map format,
  whose coordinates lie in \<open>0\<close> to \<open>65535\<close>, that key is \<open>(x & ~0xFF, y & ~0xFF, z)\<close>, and
  every tile is written with its offsets from the base of its area, which lie in \<open>0\<close> to
  \<open>255\<close>.
\<close>

theorem area_grouping:
  "distinct (map area_key (map_values (groupAreas ts)))
   \<and> (\<forall>t\<in>set ts. \<exists>!a. a \<in> set (map_values (groupAreas ts)) \<and> t \<in> set (area_tiles a))
   \<and> (\<forall>a\<in>set (map_values (groupAreas ts)).
         areaX a mod 256 = 0 \<and> areaY a mod 256 = 0
         \<and> area_tiles a \<noteq> []
         \<and> area_tiles a = filter (\<lambda>t. code_key t = area_key a) ts)
   \<and> map area_key (map_values (groupAreas ts)) = firsts (map code_key ts)
   \<and> (list_all in_map_range ts \<longrightarrow>
         map area_key (map_values (groupAreas ts)) = firsts (map spec_area_key ts)
         \<and> (\<forall>a\<in>set (map_values (groupAreas ts)).
               area_tiles a = filter (\<lambda>t. spec_area_key t = area_key a) ts
               \<and> (\<forall>t\<in>set (area_tiles a).
                     0 \<le> tile_x t - areaX a \<and> tile_x t - areaX a \<le> 255
                     \<and> 0 \<le> tile_y t - areaY a \<and> tile_y t - areaY a \<le> 255
                     \<and> (\<forall>w. writeTile t (areaX a) (areaY a) w =
                          push (spec_node 5
                            (spec_escape [tile_x t - areaX a] @ spec_escape [tile_y t - areaY a]
                             @ [9] @ spec_escape (u16_le (groundId t))
                             @ concat (map spec_item_node (items t)))) w))))"
proof -
  let ?as = "map_values (groupAreas ts)"
  have kc: "map area_key ?as = firsts (map code_key ts)"
    by (rule areas_code(1))
  then have d: "distinct (map area_key ?as)"
    by (simp add: firsts_def)
  have u: "\<forall>t\<in>set ts. \<exists>!a. a \<in> set ?as \<and> t \<in> set (area_tiles a)"
    using areas_code(5) [of _ ts] by blast
  have b: "\<forall>a\<in>set ?as. areaX a mod 256 = 0 \<and> areaY a mod 256 = 0
         \<and> area_tiles a \<noteq> []
         \<and> area_tiles a = filter (\<lambda>t. code_key t = area_key a) ts"
    using areas_code(2) [of _ ts] areas_code(3) [of _ ts] areas_code(4) [of _ ts] by blast
  have r: "map area_key ?as = firsts (map spec_area_key ts)
         \<and> (\<forall>a\<in>set ?as.
               area_tiles a = filter (\<lambda>t. spec_area_key t = area_key a) ts
               \<and> (\<forall>t\<in>set (area_tiles a).
                     0 \<le> tile_x t - areaX a \<and> tile_x t - areaX a \<le> 255
                     \<and> 0 \<le> tile_y t - areaY a \<and> tile_y t - areaY a \<le> 255
                     \<and> (\<forall>w. writeTile t (areaX a) (areaY a) w =
                          push (spec_node 5
                            (spec_escape [tile_x t - areaX a] @ spec_escape [tile_y t - areaY a]
                             @ [9] @ spec_escape (u16_le (groundId t))
                             @ concat (map spec_item_node (items t)))) w)))"
    if inr: "list_all in_map_range ts"
  proof -
    from inr have rng: "\<And>t. t \<in> set ts \<Longrightarrow> in_map_range t"
      by (simp add: list_all_iff)
    then have keys: "map code_key ts = map spec_area_key ts"
      by (intro map_cong refl code_key_in_range)
    have k: "map area_key ?as = firsts (map spec_area_key ts)"
      using kc keys by simp
    have per: "area_tiles a = filter (\<lambda>t. spec_area_key t = area_key a) ts
          \<and> (\<forall>t\<in>set (area_tiles a).
                0 \<le> tile_x t - areaX a \<and> tile_x t - areaX a \<le> 255
                \<and> 0 \<le> tile_y t - areaY a \<and> tile_y t - areaY a \<le> 255
                \<and> (\<forall>w. writeTile t (areaX a) (areaY a) w =
                     push (spec_node 5
                       (spec_escape [tile_x t - areaX a] @ spec_escape [tile_y t - areaY a]
                        @ [9] @ spec_escape (u16_le (groundId t))
                        @ concat (map spec_item_node (items t)))) w))"
      if a: "a \<in> set ?as" for a
    proof -
      have f: "area_tiles a = filter (\<lambda>t. code_key t = area_key a) ts"
        using a by (rule areas_code(2))
      also have "\<dots> = filter (\<lambda>t. spec_area_key t = area_key a) ts"
        by (intro filter_cong refl) (simp add: code_key_in_range rng)
      finally have f': "area_tiles a = filter (\<lambda>t. spec_area_key t = area_key a) ts" .
      have tl: "0 \<le> tile_x t - areaX a \<and> tile_x t - areaX a \<le> 255
                \<and> 0 \<le> tile_y t - areaY a \<and> tile_y t - areaY a \<le> 255
                \<and> (\<forall>w. writeTile t (areaX a) (areaY a) w =
                     push (spec_node 5
                       (spec_escape [tile_x t - areaX a] @ spec_escape [tile_y t - areaY a]
                        @ [9] @ spec_escape (u16_le (groundId t))
                        @ concat (map spec_item_node (items t)))) w)"
        if "t \<in> set (area_tiles a)" for t
      proof -
        from that f have t: "t \<in> set ts" "code_key t = (areaX a, areaY a, area_z a)"
          by (simp_all add: area_key_def)
        from tile_node_offsets [OF rng [OF t(1)] t(2)] show ?thesis
          by (simp add: writeTile_push)
      qed
      show ?thesis
        using f' tl by blast
    qed
    show ?thesis
      using k per by blast
  qed
  show ?thesis
    using d u b kc r by blast
qed

text \<open>
  Three tiles of two areas: the first and the third share the area with base
  \<open>(256, 0)\<close>, which is seen first.
\<close>

theorem area_grouping_witness:
  "list_all in_map_range
     [\<lparr>tile_x = 300, tile_y = 5, tile_z = 7, groundId = 100, items = []\<rparr>,
      \<lparr>tile_x = 10, tile_y = 10, tile_z = 7, groundId = 200, items = []\<rparr>,
      \<lparr>tile_x = 301, tile_y = 6, tile_z = 7, groundId = 255, items = []\<rparr>]
   \<and> map area_key (map_values (groupAreas
     [\<lparr>tile_x = 300, tile_y = 5, tile_z = 7, groundId = 100, items = []\<rparr>,
      \<lparr>tile_x = 10, tile_y = 10, tile_z = 7, groundId = 200, items = []\<rparr>,
      \<lparr>tile_x = 301, tile_y = 6, tile_z = 7, groundId = 255, items = []\<rparr>]))
     = [(256, 0, 7), (0, 0, 7)]"
  using area_grouping [of
     "[\<lparr>tile_x = 300, tile_y = 5, tile_z = 7, groundId = 100, items = []\<rparr>,
      \<lparr>tile_x = 10, tile_y = 10, tile_z = 7, groundId = 200, items = []\<rparr>,
      \<lparr>tile_x = 301, tile_y = 6, tile_z = 7, groundId = 255, items = []\<rparr>]"]
  by (simp add: in_map_range_def spec_area_key_def code_key_def firsts_def)

text \<open>
  Claim C10, as stated: an id outside \<open>0\<close> to \<open>65535\<close> is rejected. It is not: \<open>addTile\<close>
  stores the id \<open>65636\<close>, and \<open>generate\<close> returns the bytes it returns for the id \<open>100\<close>.
\<close>

theorem tile_id_rejected_counterexample:
  "tiles (addTile 0 0 7 65636 [] (new_OTBMWriter 1 1 [] 2 3 57))
     = [\<lparr> tile_x = 0, tile_y = 0, tile_z = 7, groundId = 65636, items = [] \<rparr>]
   \<and> generate (addTile 0 0 7 65636 [] (new_OTBMWriter 1 1 [] 2 3 57))
     = [79, 84, 66, 77, 254, 1, 2, 0, 0, 0, 1, 0, 1, 0, 3, 0, 0, 0, 57, 0, 0, 0,
        254, 2, 1, 0, 0, 254, 4, 0, 0, 0, 0, 7, 254, 5, 0, 0, 9, 100, 0, 255, 255,
        254, 12, 255, 254, 15, 255, 255, 255]
   \<and> generate (addTile 0 0 7 65636 [] (new_OTBMWriter 1 1 [] 2 3 57))
     = generate (addTile 0 0 7 100 [] (new_OTBMWriter 1 1 [] 2 3 57))"
  by (simp add: generate_document spec_document_def spec_root_header_def spec_map_data_def
      spec_string_def spec_node_def spec_area_node_def spec_tile_node_def
      groupAreas_values code_key_def firsts_def area_for_def
      addTile_def new_OTBMWriter_def u16_le_def u32_le_def is_marker_def)

text \<open>
  Claim C10, amended. The writer checks no tile id: \<open>addTile\<close> stores the id it is given,
  and the id is written as its low 16 bits, least significant byte first, so that the
  stream is the one of the id modulo 65536; an id from \<open>0\<close> to \<open>65535\<close> is written as it
  is.
\<close>

theorem tile_id_written_modulo_65536:
  "tiles (addTile tx ty tz gid its w)
     = tiles w @ [\<lparr> tile_x = tx, tile_y = ty, tile_z = tz, groundId = gid, items = its \<rparr>]
   \<and> writeU16 gid wr = push (spec_escape (u16_le (gid mod 65536))) wr
   \<and> le_value (u16_le gid) = gid mod 65536
   \<and> generate (addTile tx ty tz gid its w) = generate (addTile tx ty tz (gid mod 65536) its w)
   \<and> (0 \<le> gid \<and> gid \<le> 65535 \<longrightarrow> le_value (u16_le gid) = gid)"
proof -
  let ?t = "\<lparr> tile_x = tx, tile_y = ty, tile_z = tz, groundId = gid, items = its \<rparr>"
  let ?t' = "\<lparr> tile_x = tx, tile_y = ty, tile_z = tz, groundId = gid mod 65536, items = its \<rparr>"
  have "same_encoding ?t ?t'"
    by (simp add: same_encoding_def code_key_def spec_tile_node_def u16_le_mod)
  then have "list_all2 same_encoding (tiles w @ [?t]) (tiles w @ [?t'])"
    by (simp add: list_all2_appendI same_encoding_refl)
  then have "generate ((addTile tx ty tz gid its w)\<lparr> tiles := tiles w @ [?t'] \<rparr>)
      = generate (addTile tx ty tz gid its w)"
    by (intro generate_same_encoding) (simp add: addTile_def)
  moreover have "(addTile tx ty tz gid its w)\<lparr> tiles := tiles w @ [?t'] \<rparr>
      = addTile tx ty tz (gid mod 65536) its w"
    by (simp add: addTile_def)
  ultimately have g: "generate (addTile tx ty tz gid its w)
      = generate (addTile tx ty tz (gid mod 65536) its w)"
    by simp
  show ?thesis
    using g by (simp add: addTile_def writeU16_push u16_le_mod le_value_u16)
qed

theorem tile_id_written_modulo_65536_witness:
  "(0::int) \<le> 300 \<and> (300::int) \<le> 65535 \<and> le_value (u16_le 300) = 300
   \<and> writeU16 300 (new_OTBMWriter 1 1 [] 2 3 57)
       = push [44, 1] (new_OTBMWriter 1 1 [] 2 3 57)"
  using tile_id_written_modulo_65536 [of 0 0 7 300 "[]" "new_OTBMWriter 1 1 [] 2 3 57"
      "new_OTBMWriter 1 1 [] 2 3 57"]
  by (simp add: u16_le_def is_marker_def)

section \<open>The tile planner\<close>

lemma map_get_map_set: "map_get (map_set m k v) k' = (if k' = k then Some v else map_get m k')"
  by (induction m) (auto simp: map_get_def)

lemma colorToTile_of_snoc:
  "colorToTile_of (cm @ [(k, m)]) =
     (if tileId m > 0 then map_set (colorToTile_of cm) k (tileId m) else colorToTile_of cm)"
  by (simp add: colorToTile_of_def)

lemma map_get_append1:
  "map_get (cm @ [(k', m)]) k =
     (case map_get cm k of Some v \<Rightarrow> Some v | None \<Rightarrow> if k = k' then Some m else None)"
  by (simp add: map_get_def map_add_def split: option.splits)

lemma map_get_absent: "k \<notin> fst ` set cm \<Longrightarrow> map_get cm k = None"
  by (simp add: map_get_def map_of_eq_None_iff)

lemma map_get_colorToTile:
  "distinct (map fst cm) \<Longrightarrow>
   map_get (colorToTile_of cm) k =
     (case map_get cm k of None \<Rightarrow> None
      | Some m \<Rightarrow> if tileId m > 0 then Some (tileId m) else None)"
proof (induction cm rule: rev_induct)
  case Nil
  show ?case by (simp add: colorToTile_of_def map_get_def)
next
  case (snoc e cm)
  obtain k' m where e: "e = (k', m)" by (cases e)
  from snoc.prems have d: "distinct (map fst cm)" and nk: "k' \<notin> fst ` set cm"
    by (simp_all add: e)
  have step: "map_get (colorToTile_of (cm @ [(k', m)])) k =
      (if tileId m > 0 \<and> k = k' then Some (tileId m) else map_get (colorToTile_of cm) k)"
    by (simp add: colorToTile_of_snoc map_get_map_set)
  show ?case
  proof (cases "k = k'")
    case True
    with nk have "map_get cm k = None" by (simp add: map_get_absent)
    then show ?thesis
      unfolding e step map_get_append1 using True snoc.IH [OF d] by simp
  next
    case False
    then show ?thesis
      unfolding e step map_get_append1 using snoc.IH [OF d] by (simp split: option.splits)
  qed
qed

lemma colorToTile_positive: "map_get (colorToTile_of cm) k = Some t \<Longrightarrow> t > 0"
proof (induction cm arbitrary: t rule: rev_induct)
  case Nil
  then show ?case by (simp add: colorToTile_of_def map_get_def)
next
  case (snoc e cm)
  obtain k' m where e: "e = (k', m)" by (cases e)
  have step: "map_get (colorToTile_of (cm @ [(k', m)])) k =
      (if tileId m > 0 \<and> k = k' then Some (tileId m) else map_get (colorToTile_of cm) k)"
    by (simp add: colorToTile_of_snoc map_get_map_set)
  from snoc.prems show ?case
    unfolding e step using snoc.IH by (auto split: if_splits)
qed

lemma pixel_index_bound:
  assumes "px < w" "py < h"
  shows "4 * (py * w + px) + 3 < 4 * w * (h::nat)"
proof -
  from assms have "py * w + px < py * w + w" by simp
  also have "\<dots> = Suc py * w" by simp
  also from assms have "\<dots> \<le> h * w" by (intro mult_le_mono1) simp
  finally have "py * w + px < w * h" by (simp add: mult.commute)
  then have "4 * (py * w + px) + 4 \<le> 4 * (w * h)" by simp
  then show ?thesis by (simp add: mult.assoc)
qed

lemma at_in_range: "i < length xs \<Longrightarrow> at xs i = Some (xs ! i)"
  by (simp add: at_def)

lemma add_tiles_Nil [simp]: "add_tiles [] wr = wr"
  by (simp add: add_tiles_def)

lemma add_tiles_add_tiles [simp]: "add_tiles b (add_tiles a wr) = add_tiles (a @ b) wr"
  by (simp add: add_tiles_def)

lemma planPixel_spec:
  assumes "length pixels = 4 * w * h" "px < w" "py < h" "distinct (map fst cm)"
  shows "planPixel pixels w offX offY z tid (colorToTile_of cm) py px wr =
      Some (add_tiles (spec_pixel_tiles pixels w offX offY z tid cm py px) wr)"
proof -
  define i where "i = (py * w + px) * 4"
  have "i + 3 = 4 * (py * w + px) + 3" by (simp add: i_def)
  then have b: "i + 3 < length pixels"
    using pixel_index_bound [OF assms(2,3)] assms(1) by simp
  then have rd: "at pixels i = Some (pixels ! i)" "at pixels (i + 1) = Some (pixels ! (i + 1))"
    "at pixels (i + 2) = Some (pixels ! (i + 2))" "at pixels (i + 3) = Some (pixels ! (i + 3))"
    by (simp_all add: at_in_range)
  define key where "key = rgbToHex (pixels ! i) (pixels ! (i + 1)) (pixels ! (i + 2))"
  define a where "a = pixels ! (i + 3)"
  have pp: "planPixel pixels w offX offY z tid (colorToTile_of cm) py px wr =
     (if a < 128
      then (if tid > 0 then Some (addTile (int px + offX) (int py + offY) z tid [] wr) else Some wr)
      else (case map_get (colorToTile_of cm) key of
              None \<Rightarrow> Some wr
            | Some t \<Rightarrow> if t \<noteq> 0 then Some (addTile (int px + offX) (int py + offY) z t [] wr)
                         else Some wr))"
    unfolding planPixel_def Let_def i_def [symmetric] rd
    by (simp add: lt128_def rgbToHex_opt_def key_def a_def)
  have sp: "spec_pixel_tiles pixels w offX offY z tid cm py px =
     (case spec_ground a key tid cm of
        None \<Rightarrow> []
      | Some g \<Rightarrow> [\<lparr> tile_x = int px + offX, tile_y = int py + offY, tile_z = z, groundId = g,
                      items = [] \<rparr>])"
    unfolding spec_pixel_tiles_def Let_def i_def [symmetric] key_def a_def by (rule refl)
  have pos: "t \<noteq> 0" if "map_get (colorToTile_of cm) key = Some t" for t
    using colorToTile_positive [OF that] by simp
  show ?thesis
  proof (cases "a < 128")
    case True
    then show ?thesis
      unfolding pp sp by (simp add: spec_ground_def addTile_def add_tiles_def)
  next
    case False
    show ?thesis
    proof (cases "map_get (colorToTile_of cm) key")
      case None
      then show ?thesis
        using False unfolding pp sp
        by (simp add: spec_ground_def add_tiles_def map_get_colorToTile [OF assms(4)]
            split: option.splits if_splits)
    next
      case (Some t)
      then show ?thesis
        using False pos [OF Some] unfolding pp sp
        by (simp add: spec_ground_def addTile_def add_tiles_def map_get_colorToTile [OF assms(4)]
            split: option.splits if_splits)
    qed
  qed
qed

lemma fold_opt_Some:
  assumes "\<And>v s. v \<in> set vs \<Longrightarrow> f v s = Some (add_tiles (e v) s)"
  shows "fold_opt f vs s = Some (add_tiles (concat (map e vs)) s)"
  using assms
proof (induction vs arbitrary: s)
  case Nil
  show ?case by simp
next
  case (Cons v vs)
  then show ?case by simp
qed

lemma planTiles_spec:
  assumes "length pixels = 4 * w * h" "distinct (map fst cm)"
  shows "planTiles pixels w h offX offY z tid (colorToTile_of cm) wr =
      Some (add_tiles (spec_plan pixels w h offX offY z tid cm) wr)"
  unfolding planTiles_def spec_plan_def
  by (intro fold_opt_Some planPixel_spec [OF assms(1) _ _ assms(2)]) simp_all

lemma spec_ground_positive: "spec_ground a k tid cm = Some g \<Longrightarrow> g > 0"
  by (auto simp: spec_ground_def split: if_splits option.splits)

lemma spec_plan_positive: "t \<in> set (spec_plan pixels w h offX offY z tid cm) \<Longrightarrow> groundId t > 0"
  by (auto simp: spec_plan_def spec_pixel_tiles_def Let_def split: option.splits
      dest: spec_ground_positive spec_ground_positive [OF sym])

lemma fold_opt_invariant:
  assumes "fold_opt f vs s = Some s'" "P s" "\<And>v s s'. P s \<Longrightarrow> f v s = Some s' \<Longrightarrow> P s'"
  shows "P s'"
  using assms
proof (induction vs arbitrary: s)
  case Nil
  then show ?case by simp
next
  case (Cons v vs)
  then show ?case by (auto split: option.splits)
qed

lemma planPixel_positive:
  assumes "planPixel pixels w offX offY z tid (colorToTile_of cm) py px wr = Some wr'"
    "grounds_positive wr"
  shows "grounds_positive wr'"
  using assms
  by (auto simp: planPixel_def Let_def grounds_positive_def addTile_def
      split: if_splits option.splits dest: colorToTile_positive)

lemma planTiles_positive:
  assumes "planTiles pixels w h offX offY z tid (colorToTile_of cm) wr = Some wr'"
    "grounds_positive wr"
  shows "grounds_positive wr'"
proof -
  have row: "grounds_positive s'"
    if "fold_opt (planPixel pixels w offX offY z tid (colorToTile_of cm) py) xs s = Some s'"
      "grounds_positive s" for py xs s s'
    using that by (rule fold_opt_invariant) (rule planPixel_positive)
  show ?thesis
    using assms unfolding planTiles_def
    by (rule fold_opt_invariant) (rule row)
qed

lemma tiles_new_OTBMWriter: "tiles (new_OTBMWriter a b c d e f) = []"
  by (simp add: new_OTBMWriter_def)

lemma generateOTBM_positive:
  assumes "generateOTBM gc go proceed st = Downloaded wr bytes"
  shows "grounds_positive wr"
proof -
  have init: "grounds_positive (new_OTBMWriter a b c d e f)" for a b c d e f
    by (simp add: grounds_positive_def new_OTBMWriter_def)
  from assms show ?thesis
    by (auto simp: generateOTBM_def Let_def split: option.splits if_splits
        dest!: planTiles_positive [OF _ init])
qed

lemma generateOTBM_app_js_positive:
  assumes "generateOTBM_app_js gc go proceed st = Downloaded wr bytes"
  shows "grounds_positive wr"
proof -
  have init: "grounds_positive (new_OTBMWriter a b c d e f)" for a b c d e f
    by (simp add: grounds_positive_def new_OTBMWriter_def)
  from assms show ?thesis
    by (auto simp: generateOTBM_app_js_def Let_def split: option.splits if_splits
        dest!: planTiles_positive [OF _ init])
qed

lemma generateOTBM_tiles:
  assumes "app_image st = Some img" "imageData st = Some img" "image_ok img"
    "distinct (map fst (colorMappings st))"
    "generateOTBM gc go proceed st = Downloaded wr bytes"
  shows "tiles wr =
     spec_plan (img_data img) (img_width img) (img_height img)
       (max 0 (or_default (offsetX_value st) 0)) (max 0 (or_default (offsetY_value st) 0))
       (max 0 (min 15 (or_default (zLevel_value st) 7)))
       (max 0 (min 65535 (or_default (transparentTileId_value st) 0)))
       (colorMappings st)"
proof -
  from assms(3) have len: "length (img_data img) = 4 * img_width img * img_height img"
    by (simp add: image_ok_def)
  note pt = planTiles_spec [OF len assms(4)]
  from assms(5) show ?thesis
    by (auto simp: generateOTBM_def Let_def assms(1,2) pt add_tiles_def
        tiles_new_OTBMWriter split: option.splits if_splits)
qed

lemma generateOTBM_app_js_tiles:
  assumes "app_image st = Some img" "imageData st = Some img" "image_ok img"
    "distinct (map fst (colorMappings st))"
    "generateOTBM_app_js gc go proceed st = Downloaded wr bytes"
  shows "tiles wr =
     spec_plan (img_data img) (img_width img) (img_height img)
       (or_default (offsetX_value st) 0) (or_default (offsetY_value st) 0)
       (max 0 (min 15 (or_default (zLevel_value st) 7)))
       (or_default (transparentTileId_value st) 0)
       (colorMappings st)"
proof -
  from assms(3) have len: "length (img_data img) = 4 * img_width img * img_height img"
    by (simp add: image_ok_def)
  note pt = planTiles_spec [OF len assms(4)]
  from assms(5) show ?thesis
    by (auto simp: generateOTBM_app_js_def Let_def assms(1,2) pt add_tiles_def
        tiles_new_OTBMWriter split: option.splits if_splits)
qed

lemma generateOTBM_overflow:
  assumes "app_image st = Some img" "imageData st = Some idata"
    "max 0 (or_default (offsetX_value st) 0) + int (img_width img) > 65535
     \<or> max 0 (or_default (offsetY_value st) 0) + int (img_height img) > 65535"
  shows "generateOTBM gc go proceed st = Cancelled \<or> generateOTBM gc go proceed st = CoordinateOverflow"
    and "proceed \<Longrightarrow> generateOTBM gc go proceed st = CoordinateOverflow"
  using assms(3) unfolding generateOTBM_def Let_def assms(1,2)
  by (auto split: option.splits)

lemmas hex_eval =
  rgbToHex_def padStart_def toString16.simps hexDigit_def char_of_eq_iff take_bit_eq_mod

lemmas document_eval =
  generate_document spec_document_def spec_root_header_def spec_map_data_def
  spec_string_def spec_node_def spec_area_node_def spec_tile_node_def
  groupAreas_values code_key_def firsts_def area_for_def
  u16_le_def u32_le_def is_marker_def map_description_def

lemma overflow_state_app_js_tiles:
  "planTiles [255, 0, 0, 255] (Suc 0) (Suc 0) 65535 0 7 0
     (colorToTile_of
        [(''#ff0000'', \<lparr> m_hex = ''#ff0000'', m_rgb = (255, 0, 0), tileId = 100, m_count = Suc 0 \<rparr>)])
     wr
   = Some (add_tiles [\<lparr> tile_x = 65535, tile_y = 0, tile_z = 7, groundId = 100, items = [] \<rparr>] wr)"
proof -
  have "spec_plan [255, 0, 0, 255] (Suc 0) (Suc 0) 65535 0 7 0
      [(''#ff0000'', \<lparr> m_hex = ''#ff0000'', m_rgb = (255, 0, 0), tileId = 100, m_count = Suc 0 \<rparr>)]
    = [\<lparr> tile_x = 65535, tile_y = 0, tile_z = 7, groundId = 100, items = [] \<rparr>]"
    by (simp add: spec_plan_def spec_pixel_tiles_def spec_ground_def map_get_def hex_eval)
  then show ?thesis
    using planTiles_spec [of "[255, 0, 0, 255]" "Suc 0" "Suc 0"
      "[(''#ff0000'', \<lparr> m_hex = ''#ff0000'', m_rgb = (255, 0, 0), tileId = 100, m_count = Suc 0 \<rparr>)]"
      65535 0 7 0 wr]
    by simp
qed

lemma scenario_plan:
  "spec_plan (img_data scenario_image) 2 2 0 0 7 5 (colorMappings scenario_state)
   = [\<lparr> tile_x = 0, tile_y = 0, tile_z = 7, groundId = 100, items = [] \<rparr>,
      \<lparr> tile_x = 1, tile_y = 0, tile_z = 7, groundId = 5, items = [] \<rparr>,
      \<lparr> tile_x = 1, tile_y = 1, tile_z = 7, groundId = 100, items = [] \<rparr>]"
  by (simp add: spec_plan_def spec_pixel_tiles_def spec_ground_def map_get_def hex_eval
      scenario_image_def scenario_state_def upt_rec)

lemma scenario_planTiles:
  "planTiles (img_data scenario_image) 2 2 0 0 7 5 (colorToTile_of (colorMappings scenario_state)) wr
   = Some (add_tiles
      [\<lparr> tile_x = 0, tile_y = 0, tile_z = 7, groundId = 100, items = [] \<rparr>,
       \<lparr> tile_x = 1, tile_y = 0, tile_z = 7, groundId = 5, items = [] \<rparr>,
       \<lparr> tile_x = 1, tile_y = 1, tile_z = 7, groundId = 100, items = [] \<rparr>] wr)"
proof -
  have "length (img_data scenario_image) = 4 * 2 * 2"
    by (simp add: scenario_image_def)
  moreover have "distinct (map fst (colorMappings scenario_state))"
    by (simp add: scenario_state_def)
  ultimately show ?thesis
    unfolding scenario_plan [symmetric] by (rule planTiles_spec)
qed

lemma scenario_generateOTBM:
  "generateOTBM scenario_clients scenario_otbs True scenario_state =
     Downloaded
       (add_tiles
          [\<lparr> tile_x = 0, tile_y = 0, tile_z = 7, groundId = 100, items = [] \<rparr>,
           \<lparr> tile_x = 1, tile_y = 0, tile_z = 7, groundId = 5, items = [] \<rparr>,
           \<lparr> tile_x = 1, tile_y = 1, tile_z = 7, groundId = 100, items = [] \<rparr>]
          (new_OTBMWriter 2 2 ''PNG to OTBM Converted Map (8.00)'' 2 2 7))
       (generate (add_tiles
          [\<lparr> tile_x = 0, tile_y = 0, tile_z = 7, groundId = 100, items = [] \<rparr>,
           \<lparr> tile_x = 1, tile_y = 0, tile_z = 7, groundId = 5, items = [] \<rparr>,
           \<lparr> tile_x = 1, tile_y = 1, tile_z = 7, groundId = 100, items = [] \<rparr>]
          (new_OTBMWriter 2 2 ''PNG to OTBM Converted Map (8.00)'' 2 2 7)))"
proof -
  have s: "app_image scenario_state = Some scenario_image"
    "imageData scenario_state = Some scenario_image"
    "transparentTileId_value scenario_state = Some 5" "zLevel_value scenario_state = Some 7"
    "offsetX_value scenario_state = Some 0" "offsetY_value scenario_state = Some 0"
    "clientVersion_value scenario_state = ''8.00''" "img_width scenario_image = 2"
    "img_height scenario_image = 2"
    by (simp_all add: scenario_state_def scenario_image_def)
  show ?thesis
    by (simp add: generateOTBM_def s Let_def or_default_def scenario_clients_def scenario_otbs_def
        scenario_planTiles map_description_def)
qed

lemma scenario_generateOTBM_app_js:
  "generateOTBM_app_js scenario_clients scenario_otbs True scenario_state =
     Downloaded
       (add_tiles
          [\<lparr> tile_x = 0, tile_y = 0, tile_z = 7, groundId = 100, items = [] \<rparr>,
           \<lparr> tile_x = 1, tile_y = 0, tile_z = 7, groundId = 5, items = [] \<rparr>,
           \<lparr> tile_x = 1, tile_y = 1, tile_z = 7, groundId = 100, items = [] \<rparr>]
          (new_OTBMWriter 2 2 ''PNG to OTBM Converted Map (8.00)'' 2 2 7))
       (generate (add_tiles
          [\<lparr> tile_x = 0, tile_y = 0, tile_z = 7, groundId = 100, items = [] \<rparr>,
           \<lparr> tile_x = 1, tile_y = 0, tile_z = 7, groundId = 5, items = [] \<rparr>,
           \<lparr> tile_x = 1, tile_y = 1, tile_z = 7, groundId = 100, items = [] \<rparr>]
          (new_OTBMWriter 2 2 ''PNG to OTBM Converted Map (8.00)'' 2 2 7)))"
proof -
  have s: "app_image scenario_state = Some scenario_image"
    "imageData scenario_state = Some scenario_image"
    "transparentTileId_value scenario_state = Some 5" "zLevel_value scenario_state = Some 7"
    "offsetX_value scenario_state = Some 0" "offsetY_value scenario_state = Some 0"
    "clientVersion_value scenario_state = ''8.00''" "img_width scenario_image = 2"
    "img_height scenario_image = 2"
    by (simp_all add: scenario_state_def scenario_image_def)
  show ?thesis
    by (simp add: generateOTBM_app_js_def s Let_def or_default_def scenario_clients_def
        scenario_otbs_def scenario_planTiles map_description_def)
qed

subsection \<open>The claims about the tile planner\<close>

text \<open>
  Claim C9. No tile that the planner places has the ground id 0: in both versions of
  \<open>_generateOTBM\<close> every tile of the writer that is downloaded has a positive ground id.
  For an image with four bytes per pixel and a palette with distinct keys the two pixel
  loops do not throw, and the tiles they add are those of the per-pixel rule, in row-major
  order: a transparent pixel gives a tile only when the transparent id is positive, an
  opaque pixel only when the tile id of its palette entry is positive, with that id as
  ground id.
\<close>

theorem tile_planner_ground_ids:
  "(generateOTBM gc go proceed st = Downloaded wr bytes \<longrightarrow> (\<forall>t\<in>set (tiles wr). groundId t > 0))
   \<and> (generateOTBM_app_js gc go proceed st = Downloaded wr bytes
        \<longrightarrow> (\<forall>t\<in>set (tiles wr). groundId t > 0))
   \<and> (app_image st = Some img \<and> imageData st = Some img \<and> image_ok img
        \<and> distinct (map fst (colorMappings st))
        \<and> generateOTBM gc go proceed st = Downloaded wr bytes
        \<longrightarrow> tiles wr =
             spec_plan (img_data img) (img_width img) (img_height img)
               (max 0 (or_default (offsetX_value st) 0)) (max 0 (or_default (offsetY_value st) 0))
               (max 0 (min 15 (or_default (zLevel_value st) 7)))
               (max 0 (min 65535 (or_default (transparentTileId_value st) 0)))
               (colorMappings st))
   \<and> (app_image st = Some img \<and> imageData st = Some img \<and> image_ok img
        \<and> distinct (map fst (colorMappings st))
        \<and> generateOTBM_app_js gc go proceed st = Downloaded wr bytes
        \<longrightarrow> tiles wr =
             spec_plan (img_data img) (img_width img) (img_height img)
               (or_default (offsetX_value st) 0) (or_default (offsetY_value st) 0)
               (max 0 (min 15 (or_default (zLevel_value st) 7)))
               (or_default (transparentTileId_value st) 0)
               (colorMappings st))
   \<and> (length pixels = 4 * w * h \<and> distinct (map fst palette)
        \<longrightarrow> planTiles pixels w h offX offY z tid (colorToTile_of palette) wr0
            = Some (wr0\<lparr> tiles := tiles wr0 @ spec_plan pixels w h offX offY z tid palette \<rparr>))
   \<and> (\<forall>t\<in>set (spec_plan pixels w h offX offY z tid palette). groundId t > 0)"
proof -
  have a: "generateOTBM gc go proceed st = Downloaded wr bytes \<longrightarrow> (\<forall>t\<in>set (tiles wr). groundId t > 0)"
    using generateOTBM_positive [of gc go proceed st wr bytes]
    by (simp add: grounds_positive_def list_all_iff)
  have b: "generateOTBM_app_js gc go proceed st = Downloaded wr bytes
        \<longrightarrow> (\<forall>t\<in>set (tiles wr). groundId t > 0)"
    using generateOTBM_app_js_positive [of gc go proceed st wr bytes]
    by (simp add: grounds_positive_def list_all_iff)
  have e: "length pixels = 4 * w * h \<and> distinct (map fst palette)
        \<longrightarrow> planTiles pixels w h offX offY z tid (colorToTile_of palette) wr0
            = Some (wr0\<lparr> tiles := tiles wr0 @ spec_plan pixels w h offX offY z tid palette \<rparr>)"
    using planTiles_spec [of pixels w h palette offX offY z tid wr0] by (simp add: add_tiles_def)
  show ?thesis
    using a b e generateOTBM_tiles [of st img gc go proceed wr bytes]
      generateOTBM_app_js_tiles [of st img gc go proceed wr bytes]
      spec_plan_positive [of _ pixels w h offX offY z tid palette]
    by blast
qed

theorem tile_planner_ground_ids_witness:
  "generateOTBM scenario_clients scenario_otbs True scenario_state =
     Downloaded
       (add_tiles
          [\<lparr> tile_x = 0, tile_y = 0, tile_z = 7, groundId = 100, items = [] \<rparr>,
           \<lparr> tile_x = 1, tile_y = 0, tile_z = 7, groundId = 5, items = [] \<rparr>,
           \<lparr> tile_x = 1, tile_y = 1, tile_z = 7, groundId = 100, items = [] \<rparr>]
          (new_OTBMWriter 2 2 ''PNG to OTBM Converted Map (8.00)'' 2 2 7))
       (generate (add_tiles
          [\<lparr> tile_x = 0, tile_y = 0, tile_z = 7, groundId = 100, items = [] \<rparr>,
           \<lparr> tile_x = 1, tile_y = 0, tile_z = 7, groundId = 5, items = [] \<rparr>,
           \<lparr> tile_x = 1, tile_y = 1, tile_z = 7, groundId = 100, items = [] \<rparr>]
          (new_OTBMWriter 2 2 ''PNG to OTBM Converted Map (8.00)'' 2 2 7)))
   \<and> app_image scenario_state = Some scenario_image
   \<and> imageData scenario_state = Some scenario_image
   \<and> image_ok scenario_image
   \<and> distinct (map fst (colorMappings scenario_state))
   \<and> length (img_data scenario_image) = 4 * 2 * 2
   \<and> spec_plan (img_data scenario_image) 2 2 0 0 7 5 (colorMappings scenario_state)
       = [\<lparr> tile_x = 0, tile_y = 0, tile_z = 7, groundId = 100, items = [] \<rparr>,
          \<lparr> tile_x = 1, tile_y = 0, tile_z = 7, groundId = 5, items = [] \<rparr>,
          \<lparr> tile_x = 1, tile_y = 1, tile_z = 7, groundId = 100, items = [] \<rparr>]
   \<and> planTiles (img_data scenario_image) 2 2 0 0 7 5 (colorToTile_of (colorMappings scenario_state))
         (new_OTBMWriter 2 2 [] 2 2 7)
       = Some ((new_OTBMWriter 2 2 [] 2 2 7)\<lparr> tiles :=
           [\<lparr> tile_x = 0, tile_y = 0, tile_z = 7, groundId = 100, items = [] \<rparr>,
            \<lparr> tile_x = 1, tile_y = 0, tile_z = 7, groundId = 5, items = [] \<rparr>,
            \<lparr> tile_x = 1, tile_y = 1, tile_z = 7, groundId = 100, items = [] \<rparr>] \<rparr>)"
proof -
  let ?ts = "[\<lparr> tile_x = 0, tile_y = 0, tile_z = 7, groundId = 100, items = [] \<rparr>,
           \<lparr> tile_x = 1, tile_y = 0, tile_z = 7, groundId = 5, items = [] \<rparr>,
           \<lparr> tile_x = 1, tile_y = 1, tile_z = 7, groundId = 100, items = [] \<rparr>]"
  let ?wr = "add_tiles ?ts (new_OTBMWriter 2 2 ''PNG to OTBM Converted Map (8.00)'' 2 2 7)"
  have hyps: "app_image scenario_state = Some scenario_image"
    "imageData scenario_state = Some scenario_image"
    "image_ok scenario_image"
    "distinct (map fst (colorMappings scenario_state))"
    "length (img_data scenario_image) = 4 * 2 * 2"
    by (simp_all add: scenario_state_def scenario_image_def image_ok_def)
  have sets: "or_default (offsetX_value scenario_state) 0 = 0"
    "or_default (offsetY_value scenario_state) 0 = 0"
    "or_default (zLevel_value scenario_state) 7 = 7"
    "or_default (transparentTileId_value scenario_state) 0 = 5"
    "img_width scenario_image = 2" "img_height scenario_image = 2"
    by (simp_all add: scenario_state_def scenario_image_def or_default_def)
  from tile_planner_ground_ids [of scenario_clients scenario_otbs True scenario_state ?wr
      "generate ?wr" scenario_image "img_data scenario_image" 2 2 "colorMappings scenario_state"
      0 0 7 5 "new_OTBMWriter 2 2 [] 2 2 7"]
    scenario_generateOTBM scenario_generateOTBM_app_js hyps
  show ?thesis
    by (simp add: sets add_tiles_def tiles_new_OTBMWriter)
qed

text \<open>
  Claim C4 at a 1 by 1 image with the x offset 65535. The \<open>_generateOTBM\<close> that checks
  the offsets reports the overflow and produces nothing (\<open>generateOTBM_overflow\<close> is the
  general statement). The \<open>_generateOTBM\<close> of \<open>app.js\<close> has no such check: it places a
  tile at x = 65535 and downloads a map whose header gives the width 65536 as 0.
\<close>

theorem overflow_guard_missing_in_app_js:
  "generateOTBM scenario_clients scenario_otbs True overflow_state = CoordinateOverflow
   \<and> generateOTBM_app_js scenario_clients scenario_otbs True overflow_state =
     Downloaded
       \<lparr> width = 65536, height = 1, description = ''PNG to OTBM Converted Map (8.00)'',
         tiles = [\<lparr> tile_x = 65535, tile_y = 0, tile_z = 7, groundId = 100, items = [] \<rparr>],
         buffer = [], otbmVersion = 2, otbMajorVersion = 2, otbMinorVersion = 7 \<rparr>
       [79, 84, 66, 77, 254, 1, 2, 0, 0, 0, 0, 0, 1, 0, 2, 0, 0, 0, 7, 0, 0, 0,
        254, 2, 1, 32, 0, 80, 78, 71, 32, 116, 111, 32, 79, 84, 66, 77, 32, 67,
        111, 110, 118, 101, 114, 116, 101, 100, 32, 77, 97, 112, 32, 40, 56, 46,
        48, 48, 41, 254, 4, 0, 253, 255, 0, 0, 7, 254, 5, 253, 255, 0, 9, 100, 0,
        255, 255, 254, 12, 255, 254, 15, 255, 255, 255]"
proof -
  have a: "generateOTBM scenario_clients scenario_otbs True overflow_state = CoordinateOverflow"
    by (simp add: generateOTBM_def overflow_state_def or_default_def Let_def)
  have b: "generateOTBM_app_js scenario_clients scenario_otbs True overflow_state =
     Downloaded
       \<lparr> width = 65536, height = 1, description = ''PNG to OTBM Converted Map (8.00)'',
         tiles = [\<lparr> tile_x = 65535, tile_y = 0, tile_z = 7, groundId = 100, items = [] \<rparr>],
         buffer = [], otbmVersion = 2, otbMajorVersion = 2, otbMinorVersion = 7 \<rparr>
       (generate
       \<lparr> width = 65536, height = 1, description = ''PNG to OTBM Converted Map (8.00)'',
         tiles = [\<lparr> tile_x = 65535, tile_y = 0, tile_z = 7, groundId = 100, items = [] \<rparr>],
         buffer = [], otbmVersion = 2, otbMajorVersion = 2, otbMinorVersion = 7 \<rparr>)"
    by (simp add: generateOTBM_app_js_def overflow_state_def or_default_def Let_def
        scenario_clients_def scenario_otbs_def overflow_state_app_js_tiles
        add_tiles_def new_OTBMWriter_def map_description_def)
  have c: "generate
       \<lparr> width = 65536, height = 1, description = ''PNG to OTBM Converted Map (8.00)'',
         tiles = [\<lparr> tile_x = 65535, tile_y = 0, tile_z = 7, groundId = 100, items = [] \<rparr>],
         buffer = [], otbmVersion = 2, otbMajorVersion = 2, otbMinorVersion = 7 \<rparr>
     = [79, 84, 66, 77, 254, 1, 2, 0, 0, 0, 0, 0, 1, 0, 2, 0, 0, 0, 7, 0, 0, 0,
        254, 2, 1, 32, 0, 80, 78, 71, 32, 116, 111, 32, 79, 84, 66, 77, 32, 67,
        111, 110, 118, 101, 114, 116, 101, 100, 32, 77, 97, 112, 32, 40, 56, 46,
        48, 48, 41, 254, 4, 0, 253, 255, 0, 0, 7, 254, 5, 253, 255, 0, 9, 100, 0,
        255, 255, 254, 12, 255, 254, 15, 255, 255, 255]"
    by (simp add: document_eval)
  show ?thesis
    using a b c by simp
qed

theorem overflow_guard_missing_in_app_js_witness:
  "generateOTBM_app_js scenario_clients scenario_otbs True overflow_state
   \<noteq> generateOTBM scenario_clients scenario_otbs True overflow_state"
  using overflow_guard_missing_in_app_js by simp

section \<open>The colour analyzer\<close>

lemma countColors_end: "countColors pixels (length pixels) cc tc = ScanDone cc tc"
  by (subst countColors.simps) simp

lemma countColors_step:
  assumes "at pixels i = Some r" "at pixels (i + 1) = Some g" "at pixels (i + 2) = Some b"
    "at pixels (i + 3) = Some a"
  shows "countColors pixels i cc tc =
     (if a < 128 then countColors pixels (i + 4) cc (tc + 1)
      else if length (bump (rgbToHex r g b) cc) > MAX_COLORS then ScanTooManyColors
           else countColors pixels (i + 4) (bump (rgbToHex r g b) cc) tc)"
proof -
  from assms(1) have "i < length pixels" by (simp add: at_def split: if_splits)
  then show ?thesis
    by (subst countColors.simps) (simp add: assms [simplified] lt128_def rgbToHex_opt_def bump_def)
qed

lemma at_append_mid: "at (pre @ xs @ q) (length pre + j) = (if j < length xs then Some (xs ! j) else at q (j - length xs))"
  by (auto simp: at_def nth_append)

lemma countColors_scan:
  assumes "length rest mod 4 = 0"
  shows "countColors (pre @ rest @ q) (length pre) cc tc =
     (case scan (pixel_list rest) cc tc of
        None \<Rightarrow> ScanTooManyColors
      | Some (cc', tc') \<Rightarrow> countColors (pre @ rest @ q) (length pre + length rest) cc' tc')"
  using assms
proof (induction rest arbitrary: pre cc tc rule: pixel_list.induct)
  case (1 r g b a rest)
  let ?data = "pre @ (r # g # b # a # rest) @ q"
  let ?pre = "pre @ [r, g, b, a]"
  have d: "?data = ?pre @ rest @ q" by simp
  have l: "length ?pre = length pre + 4" by simp
  from "1.prems" have m: "length rest mod 4 = 0" by simp
  have rd: "at ?data (length pre) = Some r" "at ?data (length pre + 1) = Some g"
    "at ?data (length pre + 2) = Some b" "at ?data (length pre + 3) = Some a"
    using at_append_mid [of pre "r # g # b # a # rest" q 0]
      at_append_mid [of pre "r # g # b # a # rest" q 1]
      at_append_mid [of pre "r # g # b # a # rest" q 2]
      at_append_mid [of pre "r # g # b # a # rest" q 3]
    by simp_all
  have ih: "countColors ?data (length pre + 4) cc' tc' =
     (case scan (pixel_list rest) cc' tc' of
        None \<Rightarrow> ScanTooManyColors
      | Some (cc'', tc'') \<Rightarrow> countColors ?data (length pre + 4 + length rest) cc'' tc'')" for cc' tc'
    using "1.IH" [OF m, of ?pre cc' tc'] unfolding d l .
  have len: "length pre + 4 + length rest = length pre + length (r # g # b # a # rest)" by simp
  show ?case
    unfolding countColors_step [OF rd] ih len
    by (simp add: is_opaque_def color_key_def not_le)
qed (simp_all add: countColors_end)

lemma length_map_set: "length (map_set m k v) = (if k \<in> fst ` set m then length m else Suc (length m))"
proof (induction m)
  case Nil
  show ?case by simp
next
  case (Cons e m)
  obtain k' v' where e: "e = (k', v')" by (cases e)
  show ?case
  proof (cases "k' = k")
    case True
    then show ?thesis by (simp add: e)
  next
    case False
    then show ?thesis using Cons.IH by (simp add: e)
  qed
qed

lemma length_bump_ge: "length cc \<le> length (bump k cc)"
  by (simp add: bump_def length_map_set)

lemma fold_bump_snoc: "fold bump (ks @ [k]) cc = bump k (fold bump ks cc)"
  by simp

lemma length_fold_bump_ge: "length cc \<le> length (fold bump ks cc)"
proof (induction ks arbitrary: cc)
  case Nil
  show ?case by simp
next
  case (Cons k ks)
  have "length cc \<le> length (bump k cc)" by (rule length_bump_ge)
  also have "\<dots> \<le> length (fold bump ks (bump k cc))" by (rule Cons.IH)
  finally show ?case by simp
qed

lemma scan_fold:
  "scan ps cc tc =
     (if length (fold bump (keys_of ps) cc) > MAX_COLORS then None
      else Some (fold bump (keys_of ps) cc, tc + length (filter (\<lambda>p. \<not> is_opaque p) ps)))"
  if "length cc \<le> MAX_COLORS"
  using that
proof (induction ps arbitrary: cc tc)
  case Nil
  then show ?case by (simp add: keys_of_def)
next
  case (Cons p ps)
  show ?case
  proof (cases "is_opaque p")
    case False
    then show ?thesis
      using Cons.IH [OF Cons.prems] by (simp add: keys_of_def)
  next
    case True
    define k where "k = color_key (fst p, fst (snd p), fst (snd (snd p)))"
    have ks: "keys_of (p # ps) = k # keys_of ps"
      using True by (simp add: keys_of_def k_def)
    show ?thesis
    proof (cases "length (bump k cc) > MAX_COLORS")
      case big: True
      have "length (bump k cc) \<le> length (fold bump (keys_of ps) (bump k cc))"
        by (rule length_fold_bump_ge)
      with big have "length (fold bump (keys_of (p # ps)) cc) > MAX_COLORS"
        by (simp add: ks)
      with big True show ?thesis by (simp add: k_def)
    next
      case small: False
      then have "length (bump k cc) \<le> MAX_COLORS" by simp
      from Cons.IH [OF this] small True show ?thesis
        by (simp add: ks k_def [symmetric])
    qed
  qed
qed

lemma keys_of_pixel_list: "keys_of (pixel_list pixels) = opaque_keys pixels"
  by (simp add: keys_of_def opaque_keys_def opaque_colors_def color_key_def comp_def
      case_prod_beta)

lemma length_pixel_list: "length pixels mod 4 = 0 \<Longrightarrow> 4 * length (pixel_list pixels) = length pixels"
  by (induction pixels rule: pixel_list.induct) simp_all

lemma countColors_char:
  assumes "length p mod 4 = 0"
  shows "countColors (p @ q) 0 [] 0 =
     (if length (fold bump (opaque_keys p) []) > MAX_COLORS then ScanTooManyColors
      else countColors (p @ q) (length p) (fold bump (opaque_keys p) []) (transparent_count p))"
  using countColors_scan [OF assms, of "[]" q "[]" 0]
  by (simp add: scan_fold keys_of_pixel_list transparent_count_def)

lemma countColors_whole:
  assumes "length p mod 4 = 0"
  shows "countColors p 0 [] 0 =
     (if length (fold bump (opaque_keys p) []) > MAX_COLORS then ScanTooManyColors
      else ScanDone (fold bump (opaque_keys p) []) (transparent_count p))"
  using countColors_char [OF assms, of "[]"] by (simp add: countColors_end)

lemma bump_keys:
  assumes "distinct fs"
  shows "bump k (map (\<lambda>k. (k, f k)) fs) =
     (if k \<in> set fs then map (\<lambda>k'. (k', if k' = k then f k + 1 else f k')) fs
      else map (\<lambda>k. (k, f k)) fs @ [(k, 1)])"
proof (cases "k \<in> set fs")
  case True
  then show ?thesis
    using map_set_present [OF True assms, of f "f k + 1"]
    by (simp add: bump_def map_get_keys)
next
  case False
  then have "k \<notin> fst ` set (map (\<lambda>k. (k, f k)) fs)" by (auto simp: image_iff)
  then show ?thesis
    using False by (simp add: bump_def map_get_keys map_set_absent)
qed

lemma fold_bump_tally: "fold bump ks [] = tally ks"
proof (induction ks rule: rev_induct)
  case Nil
  show ?case by (simp add: tally_def)
next
  case (snoc k ks)
  have "fold bump (ks @ [k]) [] = bump k (tally ks)"
    by (simp add: snoc.IH)
  also have "\<dots> = tally (ks @ [k])"
  proof (cases "k \<in> set ks")
    case True
    then show ?thesis
      unfolding tally_def
      by (simp add: bump_keys firsts_snoc)
  next
    case False
    then show ?thesis
      unfolding tally_def
      by (auto simp: bump_keys firsts_snoc)
  qed
  finally show ?case .
qed

lemma byCountDesc_le: "byCountDesc e u \<le> 0 \<longleftrightarrow> snd u \<le> snd e"
  by (simp add: byCountDesc_def)

lemma set_insert_cmp [simp]: "set (insert_cmp cmp e xs) = insert e (set xs)"
  by (induction xs) auto

lemma distinct_map_insert_cmp:
  "distinct (map f (insert_cmp cmp e xs)) = distinct (map f (e # xs))"
  by (induction xs) auto

lemma sum_list_insert_cmp:
  "sum_list (map f (insert_cmp cmp e xs)) = (f e :: nat) + sum_list (map f xs)"
  by (induction xs) auto

lemma count_desc_insert:
  "count_desc xs \<Longrightarrow> count_desc (insert_cmp byCountDesc e xs)"
  unfolding count_desc_def
  by (induction xs) (auto simp: byCountDesc_le)

lemma filter_insert_cmp:
  "filter (\<lambda>u. snd u = c) (insert_cmp byCountDesc e xs) = filter (\<lambda>u. snd u = c) (e # xs)"
  by (induction xs) (auto simp: byCountDesc_le)

lemma js_sort_Cons: "js_sort cmp (x # xs) = insert_cmp cmp x (js_sort cmp xs)"
  by (simp add: js_sort_def)

lemma js_sort_Nil [simp]: "js_sort cmp [] = []"
  by (simp add: js_sort_def)

lemma set_js_sort [simp]: "set (js_sort cmp xs) = set xs"
  by (induction xs) (simp_all add: js_sort_Cons)

lemma distinct_map_js_sort: "distinct (map f (js_sort cmp xs)) = distinct (map f xs)"
  by (induction xs) (simp_all add: js_sort_Cons distinct_map_insert_cmp)

lemma sum_list_js_sort: "sum_list (map f (js_sort cmp xs)) = (sum_list (map f xs) :: nat)"
  by (induction xs) (simp_all add: js_sort_Cons sum_list_insert_cmp)

lemma count_desc_js_sort: "count_desc (js_sort byCountDesc xs)"
proof (induction xs)
  case Nil
  show ?case by (simp add: count_desc_def)
next
  case (Cons x xs)
  then show ?case by (simp add: js_sort_Cons count_desc_insert)
qed

lemma filter_js_sort:
  "filter (\<lambda>u. snd u = c) (js_sort byCountDesc xs) = filter (\<lambda>u. snd u = c) xs"
  by (induction xs) (simp_all add: js_sort_Cons filter_insert_cmp)

lemma storeMapping_entry: "storeMapping saved e cm = map_set cm (fst e) (snd (entry saved e))"
  by (cases e) (simp add: storeMapping_def entry_def)

lemma fold_map_set_distinct:
  assumes "distinct (map fst es)"
  shows "fold (\<lambda>e cm. map_set cm (fst e) (g e)) es [] = map (\<lambda>e. (fst e, g e)) es"
  using assms
proof (induction es rule: rev_induct)
  case Nil
  show ?case by simp
next
  case (snoc e es)
  then have d: "distinct (map fst es)" and n: "fst e \<notin> fst ` set es" by simp_all
  have "fst e \<notin> fst ` set (map (\<lambda>e. (fst e, g e)) es)"
    using n by (auto simp: image_iff)
  then show ?case
    by (simp add: snoc.IH [OF d] map_set_absent)
qed

lemma fold_storeMapping:
  assumes "distinct (map fst es)"
  shows "fold (storeMapping saved) es [] = map (entry saved) es"
proof -
  have "fold (storeMapping saved) es [] = fold (\<lambda>e cm. map_set cm (fst e) (snd (entry saved e))) es []"
    by (simp add: storeMapping_entry [abs_def])
  also have "\<dots> = map (\<lambda>e. (fst e, snd (entry saved e))) es"
    using assms by (rule fold_map_set_distinct)
  also have "\<dots> = map (entry saved) es"
    by (simp add: entry_def)
  finally show ?thesis .
qed

lemma fold_storeMapping_app_js:
  assumes "distinct (map fst es)"
  shows "fold (\<lambda>e cm. case e of (hex, n) \<Rightarrow>
            map_set cm hex \<lparr> m_hex = hex, m_rgb = hexToRgb hex, tileId = 0, m_count = n \<rparr>) es []
       = map (entry Map.empty) es"
proof -
  have "(\<lambda>e cm. case e of (hex, n) \<Rightarrow>
            map_set cm hex \<lparr> m_hex = hex, m_rgb = hexToRgb hex, tileId = 0, m_count = n \<rparr>)
      = (\<lambda>e cm. map_set cm (fst e) (snd (entry Map.empty e)))"
    by (intro ext) (simp add: entry_def case_prod_beta)
  then have "fold (\<lambda>e cm. case e of (hex, n) \<Rightarrow>
            map_set cm hex \<lparr> m_hex = hex, m_rgb = hexToRgb hex, tileId = 0, m_count = n \<rparr>) es []
      = fold (\<lambda>e cm. map_set cm (fst e) (snd (entry Map.empty e))) es []"
    by simp
  also have "\<dots> = map (\<lambda>e. (fst e, snd (entry Map.empty e))) es"
    using assms by (rule fold_map_set_distinct)
  also have "\<dots> = map (entry Map.empty) es"
    by (simp add: entry_def)
  finally show ?thesis .
qed

lemma distinct_tally: "distinct (map fst (tally ks))"
  by (simp add: tally_def comp_def)

lemma length_tally: "length (tally ks) = card (set ks)"
  by (simp add: tally_def firsts_def) (metis length_remdups_card_conv set_rev)

lemma analyzeColors_char:
  assumes "app_image st = Some img" "length p mod 4 = 0" "img_data img = p @ q"
  shows "card (set (opaque_keys p)) > MAX_COLORS \<Longrightarrow>
     analyzeColors saved st =
       (AnalyzeSuccess False, st\<lparr> app_image := None, imageData := None, colorMappings := [] \<rparr>)"
    and "card (set (opaque_keys p)) > MAX_COLORS \<Longrightarrow>
     analyzeColors_app_js st =
       (AnalyzeSuccess False, st\<lparr> app_image := None, imageData := None, colorMappings := [] \<rparr>)"
    and "card (set (opaque_keys p)) \<le> MAX_COLORS \<Longrightarrow> q = [] \<Longrightarrow>
     analyzeColors saved st =
       (AnalyzeSuccess True,
        st\<lparr> imageData := Some img, colorMappings := palette_of saved p,
            transparentPixelCount := transparent_count p \<rparr>)"
    and "card (set (opaque_keys p)) \<le> MAX_COLORS \<Longrightarrow> q = [] \<Longrightarrow>
     analyzeColors_app_js st =
       (AnalyzeSuccess True,
        st\<lparr> imageData := Some img, colorMappings := palette_of Map.empty p,
            transparentPixelCount := transparent_count p \<rparr>)"
proof -
  note cc = countColors_char [OF assms(2), of q, unfolded fold_bump_tally length_tally]
  have d: "distinct (map fst (js_sort byCountDesc (tally (opaque_keys p))))"
    by (simp add: distinct_map_js_sort distinct_tally)
  show "card (set (opaque_keys p)) > MAX_COLORS \<Longrightarrow>
     analyzeColors saved st =
       (AnalyzeSuccess False, st\<lparr> app_image := None, imageData := None, colorMappings := [] \<rparr>)"
    by (simp add: analyzeColors_def assms(1,3) cc Let_def)
  show "card (set (opaque_keys p)) > MAX_COLORS \<Longrightarrow>
     analyzeColors_app_js st =
       (AnalyzeSuccess False, st\<lparr> app_image := None, imageData := None, colorMappings := [] \<rparr>)"
    by (simp add: analyzeColors_app_js_def assms(1,3) cc Let_def)
  show "card (set (opaque_keys p)) \<le> MAX_COLORS \<Longrightarrow> q = [] \<Longrightarrow>
     analyzeColors saved st =
       (AnalyzeSuccess True,
        st\<lparr> imageData := Some img, colorMappings := palette_of saved p,
            transparentPixelCount := transparent_count p \<rparr>)"
    using cc
    by (simp add: analyzeColors_def assms(1,3) Let_def countColors_end palette_of_def
        fold_storeMapping [OF d])
  show "card (set (opaque_keys p)) \<le> MAX_COLORS \<Longrightarrow> q = [] \<Longrightarrow>
     analyzeColors_app_js st =
       (AnalyzeSuccess True,
        st\<lparr> imageData := Some img, colorMappings := palette_of Map.empty p,
            transparentPixelCount := transparent_count p \<rparr>)"
    using cc
    by (simp add: analyzeColors_app_js_def assms(1,3) Let_def countColors_end palette_of_def
        fold_storeMapping_app_js [OF d])
qed

lemma toString16_small: "n < 16 \<Longrightarrow> toString16 n = [hexDigit n]"
  by (subst toString16.simps) simp

lemma toString16_byte: "16 \<le> n \<Longrightarrow> n < 256 \<Longrightarrow> toString16 n = [hexDigit (n div 16), hexDigit (n mod 16)]"
proof -
  assume a: "16 \<le> n" "n < 256"
  then have "n div 16 < 16" by simp
  then have "toString16 (n div 16) = [hexDigit (n div 16)]" by (rule toString16_small)
  with a show ?thesis by (subst toString16.simps) simp
qed

lemma hexDigit_0: "hexDigit 0 = CHR ''0''"
  by (simp add: hexDigit_def char_of_eq_iff take_bit_eq_mod)

lemma hex2: "n < 256 \<Longrightarrow> padStart 2 (CHR ''0'') (toString16 n) = [hexDigit (n div 16), hexDigit (n mod 16)]"
proof (cases "n < 16")
  case True
  then show ?thesis
    by (simp add: toString16_small padStart_def hexDigit_0)
next
  case False
  assume "n < 256"
  with False show ?thesis
    by (simp add: toString16_byte padStart_def)
qed

lemma of_char_hexDigit: "n < 16 \<Longrightarrow> (of_char (hexDigit n) :: nat) = (if n < 10 then 48 + n else 87 + n)"
  by (simp add: hexDigit_def)

lemma hexDigit_inj: "m < 16 \<Longrightarrow> n < 16 \<Longrightarrow> hexDigit m = hexDigit n \<Longrightarrow> m = n"
proof -
  assume a: "m < 16" "n < 16" "hexDigit m = hexDigit n"
  from a(3) have "(of_char (hexDigit m) :: nat) = of_char (hexDigit n)" by simp
  then have "(if m < 10 then 48 + m else 87 + m) = (if n < 10 then 48 + n else 87 + n)"
    by (simp only: of_char_hexDigit [OF a(1)] of_char_hexDigit [OF a(2)])
  with a(1,2) show ?thesis
    by (simp split: if_splits)
qed

lemma hex2_inj:
  assumes "m < 256" "n < 256"
    "[hexDigit (m div 16), hexDigit (m mod 16)] = [hexDigit (n div 16), hexDigit (n mod 16)]"
  shows "m = (n::nat)"
proof -
  from assms have "m div 16 < 16" "n div 16 < 16" "m mod 16 < 16" "n mod 16 < 16" by simp_all
  with assms(3) have "m div 16 = n div 16" "m mod 16 = n mod 16"
    using hexDigit_inj [of "m div 16" "n div 16"] hexDigit_inj [of "m mod 16" "n mod 16"]
    by simp_all
  then show ?thesis by (metis div_mult_mod_eq)
qed

lemma unat_byte: "unat (v :: 8 word) < 256"
  using unsigned_less [of v, where ?'a = nat] by simp

lemma rgbToHex_eq:
  "rgbToHex r g b =
     [CHR ''#'', hexDigit (unat r div 16), hexDigit (unat r mod 16),
      hexDigit (unat g div 16), hexDigit (unat g mod 16),
      hexDigit (unat b div 16), hexDigit (unat b mod 16)]"
  by (simp add: rgbToHex_def hex2 unat_byte)

lemma rgbToHex_inj: "rgbToHex r g b = rgbToHex r' g' b' \<longleftrightarrow> r = r' \<and> g = g' \<and> b = b'"
proof
  assume "rgbToHex r g b = rgbToHex r' g' b'"
  then have "[hexDigit (unat r div 16), hexDigit (unat r mod 16)] = [hexDigit (unat r' div 16), hexDigit (unat r' mod 16)]"
    "[hexDigit (unat g div 16), hexDigit (unat g mod 16)] = [hexDigit (unat g' div 16), hexDigit (unat g' mod 16)]"
    "[hexDigit (unat b div 16), hexDigit (unat b mod 16)] = [hexDigit (unat b' div 16), hexDigit (unat b' mod 16)]"
    by (simp_all add: rgbToHex_eq)
  then have "unat r = unat r'" "unat g = unat g'" "unat b = unat b'"
    by (auto intro: hex2_inj simp: unat_byte)
  then show "r = r' \<and> g = g' \<and> b = b'" by (simp add: word_unat_eq_iff)
qed simp

lemma inj_color_key: "inj color_key"
  by (rule injI) (auto simp: color_key_def rgbToHex_inj)

lemma card_opaque_keys: "card (set (opaque_keys p)) = card (set (opaque_colors p))"
  by (simp add: opaque_keys_def card_image inj_color_key [THEN inj_on_subset])

lemma map_get_Cons: "map_get ((k', v) # m) k = (if k = k' then Some v else map_get m k)"
  by (simp add: map_get_def)

lemma sum_bump: "sum_list (map snd (bump k cc)) = Suc (sum_list (map snd cc))"
proof (induction cc)
  case Nil
  show ?case by (simp add: bump_def map_get_def)
next
  case (Cons e cc)
  obtain k' v where e: "e = (k', v)" by (cases e)
  show ?case
  proof (cases "k' = k")
    case True
    then show ?thesis by (simp add: e bump_def map_get_Cons)
  next
    case False
    then have "bump k (e # cc) = e # bump k cc"
      by (simp add: e bump_def map_get_Cons)
    then show ?thesis by (simp add: Cons.IH)
  qed
qed

lemma sum_fold_bump: "sum_list (map snd (fold bump ks cc)) = sum_list (map snd cc) + length ks"
  by (induction ks arbitrary: cc) (simp_all add: sum_bump)

lemma sum_tally: "sum_list (map snd (tally ks)) = length ks"
  using sum_fold_bump [of ks "[]"] by (simp add: fold_bump_tally)

lemma sum_palette: "sum_list (map (\<lambda>e. m_count (snd e)) (palette_of saved p)) = length (opaque_keys p)"
proof -
  have "map (\<lambda>e. m_count (snd e)) (palette_of saved p)
      = map snd (js_sort byCountDesc (tally (opaque_keys p)))"
    by (simp add: palette_of_def entry_def comp_def)
  then show ?thesis by (simp add: sum_list_js_sort sum_tally)
qed

lemma pixels_split:
  "length (opaque_keys p) + transparent_count p = length (pixel_list p)"
  by (simp add: opaque_keys_def opaque_colors_def transparent_count_def sum_length_filter_compl)

lemma image_ok_pixels:
  assumes "image_ok img"
  shows "length (img_data img) mod 4 = 0"
    and "length (pixel_list (img_data img)) = img_width img * img_height img"
proof -
  from assms have l: "length (img_data img) = 4 * (img_width img * img_height img)"
    by (simp add: image_ok_def mult.assoc)
  then show m: "length (img_data img) mod 4 = 0" by simp
  from length_pixel_list [OF m] l
  show "length (pixel_list (img_data img)) = img_width img * img_height img" by simp
qed

lemma palette_of_fields:
  "map fst (palette_of saved p) = map fst (js_sort byCountDesc (tally (opaque_keys p)))"
  "map (\<lambda>e. m_hex (snd e)) (palette_of saved p) = map fst (js_sort byCountDesc (tally (opaque_keys p)))"
  "map (\<lambda>e. m_count (snd e)) (palette_of saved p) = map snd (js_sort byCountDesc (tally (opaque_keys p)))"
  by (simp_all add: palette_of_def entry_def comp_def)

lemma palette_sorted:
  "sorted_wrt (\<lambda>a b. m_count a \<ge> m_count b) (map snd (palette_of saved p))"
proof -
  have "count_desc (js_sort byCountDesc (tally (opaque_keys p)))"
    by (rule count_desc_js_sort)
  then show ?thesis
    by (simp add: palette_of_def count_desc_def sorted_wrt_map entry_def)
qed

lemma palette_ties:
  "map m_hex (filter (\<lambda>m. m_count m = c) (map snd (palette_of saved p)))
   = filter (\<lambda>k. count_list (opaque_keys p) k = c) (firsts (opaque_keys p))"
proof -
  let ?ks = "opaque_keys p"
  have "map m_hex (filter (\<lambda>m. m_count m = c) (map snd (palette_of saved p)))
      = map fst (filter (\<lambda>u. snd u = c) (js_sort byCountDesc (tally ?ks)))"
    by (simp add: palette_of_def filter_map comp_def entry_def)
  also have "\<dots> = map fst (filter (\<lambda>u. snd u = c) (tally ?ks))"
    by (simp only: filter_js_sort)
  also have "\<dots> = filter (\<lambda>k. count_list ?ks k = c) (firsts ?ks)"
    by (simp add: tally_def filter_map comp_def)
  finally show ?thesis .
qed

lemma palette_counts:
  "m \<in> set (map snd (palette_of saved p)) \<Longrightarrow> m_count m = count_list (opaque_keys p) (m_hex m)"
  by (auto simp: palette_of_def entry_def tally_def)

lemma analyzeColors_success:
  assumes "app_image st = Some img" "length (img_data img) mod 4 = 0"
    "fst (analyzeColors saved st) = AnalyzeSuccess True"
  shows "card (set (opaque_keys (img_data img))) \<le> MAX_COLORS"
proof (rule ccontr)
  assume "\<not> card (set (opaque_keys (img_data img))) \<le> MAX_COLORS"
  then have "card (set (opaque_keys (img_data img))) > MAX_COLORS" by simp
  from analyzeColors_char(1) [OF assms(1,2) _ this, of "[]" saved] assms(3)
  show False by simp
qed

lemma tie_keys:
  "opaque_keys (img_data tie_image) = [''#0000ff'', ''#ff0000'', ''#00ff00'', ''#00ff00'', ''#ff0000'']"
  by (simp add: opaque_keys_def opaque_colors_def is_opaque_def color_key_def tie_image_def hex_eval)

lemma tie_colors:
  "opaque_colors (img_data tie_image) = [(0, 0, 255), (255, 0, 0), (0, 255, 0), (0, 255, 0), (255, 0, 0)]"
  by (simp add: opaque_colors_def is_opaque_def tie_image_def)

lemma tie_palette_keys:
  "map fst (palette_of saved (img_data tie_image)) = [''#ff0000'', ''#00ff00'', ''#0000ff'']"
  by (simp add: palette_of_fields tie_keys tally_def firsts_def js_sort_def byCountDesc_def)

lemma tie_hyps:
  "image_ok tie_image" "checkImageComplexity (img_width tie_image) (img_height tie_image)"
  "card (set (opaque_colors (img_data tie_image))) \<le> 256"
proof -
  show "image_ok tie_image"
    by (simp add: image_ok_def tie_image_def)
  show "checkImageComplexity (img_width tie_image) (img_height tie_image)"
    by (simp add: checkImageComplexity_def MAX_DIMENSION_def MAX_TOTAL_PIXELS_def tie_image_def)
  have "card (set (opaque_colors (img_data tie_image))) \<le> length (opaque_colors (img_data tie_image))"
    by (rule card_length)
  also have "\<dots> = 5" by (simp add: tie_colors)
  finally show "card (set (opaque_colors (img_data tie_image))) \<le> 256" by simp
qed

lemma tie_analysis:
  "fst (analyzeColors Map.empty (empty_state\<lparr> app_image := Some tie_image \<rparr>)) = AnalyzeSuccess True"
proof -
  have i: "app_image (empty_state\<lparr> app_image := Some tie_image \<rparr>) = Some tie_image"
    by simp
  have m: "length (img_data tie_image) mod 4 = 0"
    by (simp add: tie_image_def)
  have "card (set (opaque_keys (img_data tie_image))) \<le> length (opaque_keys (img_data tie_image))"
    by (rule card_length)
  also have "\<dots> \<le> MAX_COLORS" by (simp add: tie_keys MAX_COLORS_def)
  finally have c: "card (set (opaque_keys (img_data tie_image))) \<le> MAX_COLORS" .
  from analyzeColors_char(3) [OF i m _ c, of "[]" Map.empty] show ?thesis by simp
qed

lemma pixel_list_concat:
  "pixel_list (concat (map (\<lambda>n. [f n, g n, h n, a n]) ns)) = map (\<lambda>n. (f n, g n, h n, a n)) ns"
  by (induction ns) simp_all

lemma many_colors_length: "length many_colors mod 4 = 0"
proof -
  have "length (concat (map (\<lambda>n. [f n, g n, h n, a n]) ns)) = 4 * length ns" for f g h a :: "nat \<Rightarrow> 8 word" and ns
    by (induction ns) simp_all
  then show ?thesis by (simp add: many_colors_def)
qed

lemma many_colors_distinct: "card (set (opaque_colors many_colors)) > 256"
proof -
  let ?F = "\<lambda>n::nat. (of_nat (n mod 256) :: 8 word, of_nat (n div 256) :: 8 word, 0 :: 8 word)"
  have oc: "opaque_colors many_colors = map ?F [0..<257]"
    by (simp add: opaque_colors_def many_colors_def pixel_list_concat is_opaque_def
        filter_map comp_def)
  have u: "unat (of_nat k :: 8 word) = k" if "k < 256" for k
    using that by (simp add: unat_of_nat)
  have "inj_on ?F (set [0..<257])"
  proof (rule inj_onI)
    fix m n :: nat
    assume mn: "m \<in> set [0..<257]" "n \<in> set [0..<257]" and e: "?F m = ?F n"
    from mn have b: "m div 256 < 256" "n div 256 < 256" by simp_all
    from e have "unat (of_nat (m mod 256) :: 8 word) = unat (of_nat (n mod 256) :: 8 word)"
      "unat (of_nat (m div 256) :: 8 word) = unat (of_nat (n div 256) :: 8 word)"
      by simp_all
    then have "m mod 256 = n mod 256" "m div 256 = n div 256"
      using b by (simp_all add: u)
    then show "m = n" by (metis div_mult_mod_eq)
  qed
  then have "card (?F ` set [0..<257]) = card (set [0..<257])"
    by (rule card_image)
  then have "card (set (map ?F [0..<257])) = 257"
    by simp
  then show ?thesis by (simp only: oc)
qed

subsection \<open>The claims about the colour analyzer\<close>

text \<open>
  Claim C5. When the pixels scanned so far (\<open>p\<close>, whole pixels) hold more than 256
  different opaque colours, the scan stops with the too-many-colours result whatever
  follows them (\<open>q\<close>), and analysis, in both versions and through \<open>_loadImage\<close>, reports
  failure and leaves the state with no image, no image data and an empty palette.
\<close>

theorem too_many_colors_fails:
  assumes "app_image st = Some img" "img_data img = p @ q" "length p mod 4 = 0"
    "card (set (opaque_colors p)) > 256"
  shows
   "analyzeColors saved st =
      (AnalyzeSuccess False, st\<lparr> app_image := None, imageData := None, colorMappings := [] \<rparr>)
    \<and> analyzeColors_app_js st =
      (AnalyzeSuccess False, st\<lparr> app_image := None, imageData := None, colorMappings := [] \<rparr>)
    \<and> countColors (p @ q) 0 [] 0 = ScanTooManyColors
    \<and> colorMappings (snd (analyzeColors saved st)) = []
    \<and> colorMappings (snd (analyzeColors_app_js st)) = []
    \<and> (checkImageComplexity (img_width img) (img_height img) \<longrightarrow>
          loadImage saved img st =
            (Analyzed (AnalyzeSuccess False),
             st\<lparr> app_image := None, imageData := None, colorMappings := [] \<rparr>))"
proof -
  have c: "card (set (opaque_keys p)) > MAX_COLORS"
    using assms(4) by (simp add: card_opaque_keys MAX_COLORS_def)
  note a = analyzeColors_char(1) [OF assms(1,3,2) c, of saved]
  note b = analyzeColors_char(2) [OF assms(1,3,2) c]
  have s: "countColors (p @ q) 0 [] 0 = ScanTooManyColors"
    using c by (simp add: countColors_char [OF assms(3)] fold_bump_tally length_tally)
  have i: "app_image (st\<lparr> app_image := Some img \<rparr>) = Some img" by simp
  have l: "loadImage saved img st =
            (Analyzed (AnalyzeSuccess False),
             st\<lparr> app_image := None, imageData := None, colorMappings := [] \<rparr>)"
    if "checkImageComplexity (img_width img) (img_height img)"
    using that analyzeColors_char(1) [OF i assms(3,2) c, of saved]
    by (simp add: loadImage_def)
  show ?thesis
    using a b s l by simp
qed

theorem too_many_colors_fails_witness:
  "app_image (empty_state\<lparr> app_image :=
       Some \<lparr> img_width = 258, img_height = 1, img_data = many_colors @ [9, 9, 9, 255] \<rparr> \<rparr>)
     = Some \<lparr> img_width = 258, img_height = 1, img_data = many_colors @ [9, 9, 9, 255] \<rparr>
   \<and> length many_colors mod 4 = 0
   \<and> card (set (opaque_colors many_colors)) > 256
   \<and> checkImageComplexity 258 1
   \<and> analyzeColors Map.empty (empty_state\<lparr> app_image :=
       Some \<lparr> img_width = 258, img_height = 1, img_data = many_colors @ [9, 9, 9, 255] \<rparr> \<rparr>)
     = (AnalyzeSuccess False, empty_state)
   \<and> loadImage Map.empty
        \<lparr> img_width = 258, img_height = 1, img_data = many_colors @ [9, 9, 9, 255] \<rparr>
        (empty_state\<lparr> app_image :=
           Some \<lparr> img_width = 258, img_height = 1, img_data = many_colors @ [9, 9, 9, 255] \<rparr> \<rparr>)
     = (Analyzed (AnalyzeSuccess False), empty_state)"
proof -
  let ?img = "\<lparr> img_width = 258, img_height = 1, img_data = many_colors @ [9, 9, 9, 255] \<rparr>"
  let ?st = "empty_state\<lparr> app_image := Some ?img \<rparr>"
  have i: "app_image ?st = Some ?img" by simp
  have d: "img_data ?img = many_colors @ [9, 9, 9, 255]" by simp
  have c: "checkImageComplexity 258 1"
    by (simp add: checkImageComplexity_def MAX_DIMENSION_def MAX_TOTAL_PIXELS_def)
  have e: "?st\<lparr> app_image := None, imageData := None, colorMappings := [] \<rparr> = empty_state"
    "empty_state\<lparr> app_image := None, imageData := None, colorMappings := [] \<rparr> = empty_state"
    by (simp_all add: empty_state_def)
  from too_many_colors_fails [OF i d many_colors_length many_colors_distinct, of Map.empty]
  show ?thesis
    using i c many_colors_length many_colors_distinct
    by (simp add: e)
qed

text \<open>
  Claim C6. For an image with four bytes per pixel, within the size limits and with at
  most 256 different opaque colours, analysis succeeds, and the pixel counts of the
  palette entries and the count of transparent pixels (alpha below 128) add up to width
  times height.
\<close>

theorem palette_counts_cover_image:
  assumes "image_ok img" "checkImageComplexity (img_width img) (img_height img)"
    "card (set (opaque_colors (img_data img))) \<le> 256"
  shows
   "fst (loadImage saved img st) = Analyzed (AnalyzeSuccess True)
    \<and> sum_list (map (\<lambda>e. m_count (snd e)) (colorMappings (snd (loadImage saved img st))))
        + transparentPixelCount (snd (loadImage saved img st))
      = img_width img * img_height img
    \<and> transparentPixelCount (snd (loadImage saved img st)) = transparent_count (img_data img)
    \<and> fst (analyzeColors_app_js (st\<lparr> app_image := Some img \<rparr>)) = AnalyzeSuccess True
    \<and> sum_list (map (\<lambda>e. m_count (snd e))
          (colorMappings (snd (analyzeColors_app_js (st\<lparr> app_image := Some img \<rparr>)))))
        + transparentPixelCount (snd (analyzeColors_app_js (st\<lparr> app_image := Some img \<rparr>)))
      = img_width img * img_height img"
proof -
  let ?p = "img_data img"
  let ?st = "st\<lparr> app_image := Some img \<rparr>"
  have c: "card (set (opaque_keys ?p)) \<le> MAX_COLORS"
    using assms(3) by (simp add: card_opaque_keys MAX_COLORS_def)
  have i: "app_image ?st = Some img" by simp
  note m = image_ok_pixels [OF assms(1)]
  have a: "analyzeColors saved ?st =
       (AnalyzeSuccess True,
        ?st\<lparr> imageData := Some img, colorMappings := palette_of saved ?p,
            transparentPixelCount := transparent_count ?p \<rparr>)"
    by (rule analyzeColors_char(3) [OF i m(1) _ c]) simp_all
  have b: "analyzeColors_app_js ?st =
       (AnalyzeSuccess True,
        ?st\<lparr> imageData := Some img, colorMappings := palette_of Map.empty ?p,
            transparentPixelCount := transparent_count ?p \<rparr>)"
    by (rule analyzeColors_char(4) [OF i m(1) _ c]) simp_all
  have l: "loadImage saved img st =
      (Analyzed (fst (analyzeColors saved ?st)), snd (analyzeColors saved ?st))"
    using assms(2) by (simp add: loadImage_def split: prod.splits)
  show ?thesis
    unfolding l a b
    using pixels_split [of ?p] m(2) by (simp add: sum_palette)
qed

theorem palette_counts_cover_image_witness:
  "image_ok tie_image
   \<and> checkImageComplexity (img_width tie_image) (img_height tie_image)
   \<and> card (set (opaque_colors (img_data tie_image))) \<le> 256
   \<and> fst (loadImage Map.empty tie_image empty_state) = Analyzed (AnalyzeSuccess True)
   \<and> sum_list (map (\<lambda>e. m_count (snd e))
         (colorMappings (snd (loadImage Map.empty tie_image empty_state))))
       + transparentPixelCount (snd (loadImage Map.empty tie_image empty_state)) = 6
   \<and> transparentPixelCount (snd (loadImage Map.empty tie_image empty_state)) = 1"
  using palette_counts_cover_image [OF tie_hyps, of Map.empty empty_state] tie_hyps
  by (simp add: transparent_count_def is_opaque_def tie_image_def)

text \<open>
  Claim C7. When analysis succeeds, the palette entries are in descending order of pixel
  count; the entries with the same count are in the order in which their colours first
  appear in the scan; the count of an entry is the number of opaque pixels of its
  colour; and every analysis of the same image, whatever the saved tile ids and the state
  before, in either version, gives the keys in the same order.
\<close>

theorem palette_order_stable:
  assumes "app_image st = Some img" "image_ok img"
    "fst (analyzeColors saved st) = AnalyzeSuccess True"
  shows
   "sorted_wrt (\<lambda>a b. m_count a \<ge> m_count b) (map snd (colorMappings (snd (analyzeColors saved st))))
    \<and> (\<forall>c. map m_hex (filter (\<lambda>m. m_count m = c)
                (map snd (colorMappings (snd (analyzeColors saved st)))))
           = filter (\<lambda>k. count_list (opaque_keys (img_data img)) k = c)
               (firsts (opaque_keys (img_data img))))
    \<and> (\<forall>m\<in>set (map snd (colorMappings (snd (analyzeColors saved st)))).
          m_count m = count_list (opaque_keys (img_data img)) (m_hex m))
    \<and> map fst (colorMappings (snd (analyzeColors saved st)))
        = map m_hex (map snd (colorMappings (snd (analyzeColors saved st))))
    \<and> (\<forall>saved' st'. app_image st' = Some img \<longrightarrow>
          map fst (colorMappings (snd (analyzeColors saved' st')))
          = map fst (colorMappings (snd (analyzeColors saved st)))
          \<and> map fst (colorMappings (snd (analyzeColors_app_js st')))
          = map fst (colorMappings (snd (analyzeColors saved st))))"
proof -
  let ?p = "img_data img"
  note m = image_ok_pixels(1) [OF assms(2)]
  have c: "card (set (opaque_keys ?p)) \<le> MAX_COLORS"
    using assms(1) m assms(3) by (rule analyzeColors_success)
  have a: "colorMappings (snd (analyzeColors saved' st')) = palette_of saved' ?p"
    if "app_image st' = Some img" for saved' st'
    using analyzeColors_char(3) [OF that m _ c, of "[]" saved'] by simp
  have b: "colorMappings (snd (analyzeColors_app_js st')) = palette_of Map.empty ?p"
    if "app_image st' = Some img" for st'
    using analyzeColors_char(4) [OF that m _ c, of "[]"] by simp
  have k: "map fst (palette_of s1 ?p) = map fst (palette_of s2 ?p)" for s1 s2
    by (simp only: palette_of_fields(1))
  have h: "map fst (palette_of saved ?p) = map m_hex (map snd (palette_of saved ?p))"
    by (simp add: palette_of_fields comp_def)
  show ?thesis
    unfolding a [OF assms(1)]
    using palette_sorted [of saved ?p] palette_ties [of _ saved ?p]
      palette_counts [of _ saved ?p] h a b k
    by auto
qed

theorem palette_order_stable_witness:
  "app_image (empty_state\<lparr> app_image := Some tie_image \<rparr>) = Some tie_image
   \<and> image_ok tie_image
   \<and> fst (analyzeColors Map.empty (empty_state\<lparr> app_image := Some tie_image \<rparr>)) = AnalyzeSuccess True
   \<and> map m_hex (filter (\<lambda>m. m_count m = 2)
         (map snd (colorMappings (snd (analyzeColors Map.empty
            (empty_state\<lparr> app_image := Some tie_image \<rparr>))))))
       = [''#ff0000'', ''#00ff00'']
   \<and> sorted_wrt (\<lambda>a b. m_count a \<ge> m_count b)
         (map snd (colorMappings (snd (analyzeColors Map.empty
            (empty_state\<lparr> app_image := Some tie_image \<rparr>)))))"
proof -
  have i: "app_image (empty_state\<lparr> app_image := Some tie_image \<rparr>) = Some tie_image"
    by simp
  from palette_order_stable [OF i tie_hyps(1) tie_analysis]
  have "map m_hex (filter (\<lambda>m. m_count m = 2)
         (map snd (colorMappings (snd (analyzeColors Map.empty
            (empty_state\<lparr> app_image := Some tie_image \<rparr>))))))
       = filter (\<lambda>k. count_list (opaque_keys (img_data tie_image)) k = 2)
               (firsts (opaque_keys (img_data tie_image)))"
    and s: "sorted_wrt (\<lambda>a b. m_count a \<ge> m_count b)
         (map snd (colorMappings (snd (analyzeColors Map.empty
            (empty_state\<lparr> app_image := Some tie_image \<rparr>)))))"
    by blast+
  then have "map m_hex (filter (\<lambda>m. m_count m = 2)
         (map snd (colorMappings (snd (analyzeColors Map.empty
            (empty_state\<lparr> app_image := Some tie_image \<rparr>))))))
       = [''#ff0000'', ''#00ff00'']"
    by (simp add: tie_keys firsts_def)
  with i tie_hyps(1) tie_analysis s show ?thesis by blast
qed

end
